theory Spec2Isabelle
  imports Main "HOL-Library.Word" "HOL-Library.Signed_Division"
begin

unbundle bit_operations_syntax

section \<open>The ADF volume engine of amiga-fuse\<close>

text \<open>
  A shallow embedding of class \<open>AdfImage\<close> of \<^verbatim>\<open>src/amiga-fuse.cpp\<close>.

  The mapped image is a sequence of 512-byte blocks. A pointer obtained from
  \<open>get_block\<close> is modelled by the number of the block it points to, and a field of the
  overlaid struct by its byte offset inside that block: byte \<open>o\<close> of block \<open>b\<close> is byte
  \<open>512 * b + o\<close> of the mapping. Values of type \<open>uint32_t\<close> are \<open>32 word\<close>, bytes are
  \<open>8 word\<close>, \<open>size_t\<close> values are natural numbers (no claim depends on 64-bit
  wrap-around of a size), \<open>std::string\<close> is a list of bytes. Every multi-byte field is
  read and written big-endian, as \<open>endian::from_big_endian\<close> does on the host.
  Loops that follow on-disk pointers need not terminate on a cyclic image; they carry a
  fuel argument and return \<open>None\<close> when it runs out. \<open>time(nullptr)\<close> is the argument
  \<open>now\<close> of the operation that reads the clock.
\<close>

subsection \<open>Constants and block layout\<close>

type_synonym u8 = "8 word"
type_synonym u32 = "32 word"
type_synonym cstring = "u8 list"
type_synonym block = "nat \<Rightarrow> u8"

abbreviation (input) BLOCK_SIZE :: nat where "BLOCK_SIZE \<equiv> 512"
abbreviation (input) BCPL_STRING_MAX :: nat where "BCPL_STRING_MAX \<equiv> 30"
abbreviation (input) HASH_TABLE_SIZE :: nat where "HASH_TABLE_SIZE \<equiv> 72"

abbreviation (input) T_HEADER :: u32 where "T_HEADER \<equiv> 2"
abbreviation (input) T_DATA :: u32 where "T_DATA \<equiv> 8"
abbreviation (input) ST_ROOT :: u32 where "ST_ROOT \<equiv> 1"
abbreviation (input) ST_DIR :: u32 where "ST_DIR \<equiv> 2"
abbreviation (input) ST_FILE :: u32 where "ST_FILE \<equiv> - 3"

abbreviation (input) DOS_OFS :: u32 where "DOS_OFS \<equiv> 0x444F5300"
abbreviation (input) DOS_FFS :: u32 where "DOS_FFS \<equiv> 0x444F5301"
abbreviation (input) DOS_FFS_INTL :: u32 where "DOS_FFS_INTL \<equiv> 0x444F5303"
abbreviation (input) DOS_FFS_DC :: u32 where "DOS_FFS_DC \<equiv> 0x444F5305"

text \<open>Byte offsets of the struct fields (\<open>#pragma pack(1)\<close>, all structs 512 bytes).\<close>

abbreviation (input) o_disk_type :: nat where "o_disk_type \<equiv> 0"
abbreviation (input) o_type :: nat where "o_type \<equiv> 0"
abbreviation (input) o_header_key :: nat where "o_header_key \<equiv> 4"
abbreviation (input) o_seq_num :: nat where "o_seq_num \<equiv> 8"
abbreviation (input) o_data_size :: nat where "o_data_size \<equiv> 12"
abbreviation (input) o_first_data :: nat where "o_first_data \<equiv> 16"
abbreviation (input) o_next_data :: nat where "o_next_data \<equiv> 16"
abbreviation (input) o_table :: nat where "o_table \<equiv> 24"
abbreviation (input) o_data :: nat where "o_data \<equiv> 24"
abbreviation (input) o_bm_pages :: nat where "o_bm_pages \<equiv> 316"
abbreviation (input) o_file_size :: nat where "o_file_size \<equiv> 324"
abbreviation (input) o_days :: nat where "o_days \<equiv> 408"
abbreviation (input) o_mins :: nat where "o_mins \<equiv> 412"
abbreviation (input) o_ticks :: nat where "o_ticks \<equiv> 416"
abbreviation (input) o_root_days :: nat where "o_root_days \<equiv> 420"
abbreviation (input) o_root_mins :: nat where "o_root_mins \<equiv> 424"
abbreviation (input) o_root_ticks :: nat where "o_root_ticks \<equiv> 428"
abbreviation (input) o_name :: nat where "o_name \<equiv> 432"
abbreviation (input) o_hash_chain :: nat where "o_hash_chain \<equiv> 496"
abbreviation (input) o_parent :: nat where "o_parent \<equiv> 500"
abbreviation (input) o_sec_type :: nat where "o_sec_type \<equiv> 508"
abbreviation (input) o_map :: nat where "o_map \<equiv> 4"

subsection \<open>Endian helpers and byte copies\<close>

definition be32 :: "block \<Rightarrow> nat \<Rightarrow> u32" where
  "be32 b off = push_bit 24 (ucast (b off)) OR push_bit 16 (ucast (b (off + 1)))
     OR push_bit 8 (ucast (b (off + 2))) OR ucast (b (off + 3))"

definition put_be32 :: "block \<Rightarrow> nat \<Rightarrow> u32 \<Rightarrow> block" where
  "put_be32 b off v = b(off := ucast (drop_bit 24 v), off + 1 := ucast (drop_bit 16 v),
     off + 2 := ucast (drop_bit 8 v), off + 3 := ucast v)"

definition memcpy_to :: "block \<Rightarrow> nat \<Rightarrow> u8 list \<Rightarrow> block" where
  "memcpy_to b off bs = (\<lambda>a. if off \<le> a \<and> a < off + length bs then bs ! (a - off) else b a)"

definition memset_at :: "block \<Rightarrow> nat \<Rightarrow> u8 \<Rightarrow> nat \<Rightarrow> block" where
  "memset_at b off v n = (\<lambda>a. if off \<le> a \<and> a < off + n then v else b a)"

definition bytes_from :: "block \<Rightarrow> nat \<Rightarrow> nat \<Rightarrow> u8 list" where
  "bytes_from b off n = map (\<lambda>i. b (off + i)) [0..<n]"

subsection \<open>BCPL strings\<close>

definition bcpl_read :: "block \<Rightarrow> nat \<Rightarrow> cstring" where
  "bcpl_read b off =
     (if b off = 0 then []
      else bytes_from b (off + 1) (min (unat (b off)) BCPL_STRING_MAX))"

definition bcpl_write :: "block \<Rightarrow> nat \<Rightarrow> cstring \<Rightarrow> block" where
  "bcpl_write b off str =
     (let len = min (length str) BCPL_STRING_MAX;
          b1 = b(off := of_nat len);
          b2 = (if 0 < len then memcpy_to b1 (off + 1) (take len str) else b1)
      in if len < BCPL_STRING_MAX then memset_at b2 (off + 1 + len) 0 (BCPL_STRING_MAX - len)
         else b2)"

subsection \<open>The volume\<close>

record Entry =
  name_e :: cstring
  is_directory :: bool
  size_e :: nat
  mtime :: int
  block_num_e :: u32

text \<open>
  \<open>mapped\<close> stands for \<open>fd_ != -1 && mapped_data_\<close>. The private members keep their
  names without the trailing underscore.
\<close>

record AdfImage =
  mapped :: bool
  mapped_data :: "nat \<Rightarrow> block"
  file_size :: nat
  dos_type :: u32
  root_block_num :: u32
  volume_name :: cstring
  is_ffs :: bool
  read_only :: bool
  dir_cache :: "cstring \<rightharpoonup> Entry list"
  free_blocks :: "u32 set"
  used_blocks :: "u32 set"

datatype errno = EROFS | ENOENT | EIO | ENOSPC | ENAMETOOLONG | EEXIST | EISDIR
  | EINVAL | ENOTDIR | ENOTEMPTY

definition is_valid :: "AdfImage \<Rightarrow> bool" where
  "is_valid st \<longleftrightarrow> mapped st \<and> file_size st \<ge> BLOCK_SIZE * 2"

text \<open>\<open>get_block\<close>: \<open>None\<close> is the null pointer.\<close>

definition get_block :: "AdfImage \<Rightarrow> u32 \<Rightarrow> nat option" where
  "get_block st bn =
     (if \<not> is_valid st \<or> (unat bn + 1) * BLOCK_SIZE > file_size st then None
      else Some (unat bn))"

definition get_block_writable :: "AdfImage \<Rightarrow> u32 \<Rightarrow> nat option" where
  "get_block_writable st bn =
     (if \<not> is_valid st \<or> read_only st \<or> (unat bn + 1) * BLOCK_SIZE > file_size st then None
      else Some (unat bn))"

text \<open>Reading and writing through a block pointer.\<close>

definition blk :: "AdfImage \<Rightarrow> nat \<Rightarrow> block" where
  "blk st p = mapped_data st p"

definition set_blk :: "AdfImage \<Rightarrow> nat \<Rightarrow> block \<Rightarrow> AdfImage" where
  "set_blk st p b = st\<lparr>mapped_data := (mapped_data st)(p := b)\<rparr>"

definition rd32 :: "AdfImage \<Rightarrow> nat \<Rightarrow> nat \<Rightarrow> u32" where
  "rd32 st p off = be32 (blk st p) off"

definition wr32 :: "AdfImage \<Rightarrow> nat \<Rightarrow> nat \<Rightarrow> u32 \<Rightarrow> AdfImage" where
  "wr32 st p off v = set_blk st p (put_be32 (blk st p) off v)"

subsection \<open>Checksums\<close>

text \<open>
  \<open>calculate_checksum\<close> and \<open>update_checksum\<close> work on one block; the checksum offset
  counts 32-bit words and is 5 or 0 at every call site (it must be below 128 for the
  store of \<open>update_checksum\<close> to stay inside the block).
\<close>

definition calculate_checksum :: "block \<Rightarrow> nat \<Rightarrow> u32" where
  "calculate_checksum b checksum_offset =
     - fold (\<lambda>i sum. if i \<noteq> checksum_offset then sum + be32 b (4 * i) else sum) [0..<128] 0"

definition update_checksum :: "block \<Rightarrow> nat \<Rightarrow> block" where
  "update_checksum b checksum_offset =
     (let b0 = put_be32 b (4 * checksum_offset) 0;
          checksum = calculate_checksum b0 checksum_offset
      in put_be32 b0 (4 * checksum_offset) checksum)"

definition update_bitmap_checksum :: "block \<Rightarrow> block" where
  "update_bitmap_checksum bitmap = update_checksum bitmap 0"

definition checksum_block :: "AdfImage \<Rightarrow> nat \<Rightarrow> AdfImage" where
  "checksum_block st p = set_blk st p (update_checksum (blk st p) 5)"

subsection \<open>Volume open: \<open>parse_filesystem\<close>, \<open>parse_bitmap\<close>, \<open>scan_used_blocks\<close>\<close>

definition mark_used :: "AdfImage \<Rightarrow> u32 \<Rightarrow> AdfImage" where
  "mark_used st b = st\<lparr>free_blocks := free_blocks st - {b}, used_blocks := insert b (used_blocks st)\<rparr>"

text \<open>The loop over the 32 bits of one bitmap word; it leaves at the first block number
  beyond the image.\<close>

fun bitmap_bits :: "u32 \<Rightarrow> u32 \<Rightarrow> u32 \<Rightarrow> nat list \<Rightarrow> AdfImage \<Rightarrow> AdfImage" where
  "bitmap_bits total_blocks word_base map_word [] st = st"
| "bitmap_bits total_blocks word_base map_word (i # rest) st =
     (let block_num = word_base + of_nat i
      in if block_num \<ge> total_blocks then st
         else bitmap_bits total_blocks word_base map_word rest
                (if map_word AND push_bit i 1 = 0 then mark_used st block_num else st))"

text \<open>The loop over the 127 map words of one bitmap block \<open>bitmap\<close>.\<close>

fun bitmap_words :: "u32 \<Rightarrow> u32 \<Rightarrow> block \<Rightarrow> nat list \<Rightarrow> AdfImage \<Rightarrow> AdfImage" where
  "bitmap_words total_blocks base_block bitmap [] st = st"
| "bitmap_words total_blocks base_block bitmap (j # rest) st =
     bitmap_words total_blocks base_block bitmap rest
       (bitmap_bits total_blocks (base_block + of_nat j * 32) (be32 bitmap (o_map + 4 * j))
          [0..<32] st)"

text \<open>The loop over \<open>bm_pages[0..24]\<close> of the root block \<open>root\<close>; a zero entry ends it.\<close>

fun bitmap_pages :: "u32 \<Rightarrow> nat \<Rightarrow> nat list \<Rightarrow> AdfImage \<Rightarrow> AdfImage" where
  "bitmap_pages total_blocks root [] st = st"
| "bitmap_pages total_blocks root (i # rest) st =
     (let bm_block = rd32 st root (o_bm_pages + 4 * i)
      in if bm_block = 0 then st
         else let st1 = mark_used st bm_block
              in (case get_block st1 bm_block of
                    None \<Rightarrow> bitmap_pages total_blocks root rest st1
                  | Some bitmap \<Rightarrow>
                      bitmap_pages total_blocks root rest
                        (bitmap_words total_blocks (of_nat i * 4064) (blk st1 bitmap)
                           [0..<127] st1)))"

text \<open>The \<open>while\<close> loop of \<open>scan_used_blocks\<close> over the data chain of a file.\<close>

fun scan_data_chain :: "nat \<Rightarrow> AdfImage \<Rightarrow> u32 \<Rightarrow> AdfImage option" where
  "scan_data_chain 0 st data_block = None"
| "scan_data_chain (Suc fuel) st data_block =
     (if data_block = 0 then Some st
      else let st1 = mark_used st data_block
           in (case get_block st1 data_block of
                 None \<Rightarrow> Some st1
               | Some data \<Rightarrow> scan_data_chain fuel st1 (rd32 st1 data o_next_data)))"

definition hash_slots :: "nat list" where
  "hash_slots = [0..<HASH_TABLE_SIZE]"

definition is_dir_sec_type :: "u32 \<Rightarrow> bool" where
  "is_dir_sec_type sec_type \<longleftrightarrow> sec_type = ST_ROOT \<or> sec_type = 0 \<or> sec_type = ST_DIR"

fun scan_used_blocks :: "nat \<Rightarrow> AdfImage \<Rightarrow> u32 \<Rightarrow> AdfImage option"
  and scan_hash_slots :: "nat \<Rightarrow> AdfImage \<Rightarrow> nat \<Rightarrow> nat list \<Rightarrow> AdfImage option" where
  "scan_used_blocks 0 st block_num = None"
| "scan_used_blocks (Suc fuel) st block_num =
     (if block_num = 0 \<or> block_num \<in> used_blocks st then Some st
      else (case get_block (mark_used st block_num) block_num of
              None \<Rightarrow> Some (mark_used st block_num)
            | Some block \<Rightarrow>
                Option.bind
                  (if is_dir_sec_type (rd32 st block o_sec_type) then
                     (if block_num = root_block_num st then
                        (case get_block (mark_used st block_num) block_num of
                           None \<Rightarrow> Some (mark_used st block_num)
                         | Some root \<Rightarrow> scan_hash_slots fuel (mark_used st block_num) root hash_slots)
                      else scan_hash_slots fuel (mark_used st block_num) block hash_slots)
                   else Some (mark_used st block_num))
                  (\<lambda>st2. Option.bind
                     (if rd32 st block o_sec_type = ST_FILE
                      then scan_data_chain fuel st2 (rd32 st2 block o_first_data)
                      else Some st2)
                     (\<lambda>st3. if rd32 st3 block o_hash_chain \<noteq> 0
                            then scan_used_blocks fuel st3 (rd32 st3 block o_hash_chain)
                            else Some st3))))"
| "scan_hash_slots fuel st dir [] = Some st"
| "scan_hash_slots fuel st dir (i # rest) =
     (if rd32 st dir (o_table + 4 * i) \<noteq> 0 then
        Option.bind (scan_used_blocks fuel st (rd32 st dir (o_table + 4 * i)))
          (\<lambda>st1. scan_hash_slots fuel st1 dir rest)
      else scan_hash_slots fuel st dir rest)"

definition parse_bitmap :: "nat \<Rightarrow> AdfImage \<Rightarrow> AdfImage option" where
  "parse_bitmap fuel st =
     (let total_blocks = (of_nat (file_size st div BLOCK_SIZE) :: u32);
          st1 = st\<lparr>free_blocks := {2..<total_blocks}, used_blocks := {}\<rparr>;
          st2 = mark_used (mark_used st1 0) 1
      in (case get_block st2 (root_block_num st2) of
            None \<Rightarrow> Some st2
          | Some root \<Rightarrow>
              let st3 = bitmap_pages total_blocks root [0..<25] st2;
                  st4 = mark_used st3 (root_block_num st3)
              in (case get_block st4 (root_block_num st4) of
                    None \<Rightarrow> Some st4
                  | Some root2 \<Rightarrow> scan_hash_slots fuel st4 root2 hash_slots)))"

definition parse_filesystem :: "nat \<Rightarrow> AdfImage \<Rightarrow> (bool \<times> AdfImage) option" where
  "parse_filesystem fuel st =
     (case get_block st 0 of
        None \<Rightarrow> Some (False, st)
      | Some boot \<Rightarrow>
          let st1 = st\<lparr>dos_type := rd32 st boot o_disk_type\<rparr>;
              st2 = st1\<lparr>root_block_num := 880\<rparr>;
              st3 = st2\<lparr>is_ffs := (dos_type st2 = DOS_FFS \<or> dos_type st2 = DOS_FFS_INTL
                                      \<or> dos_type st2 = DOS_FFS_DC)\<rparr>
          in (case get_block st3 (root_block_num st3) of
                None \<Rightarrow> Some (False, st3)
              | Some root \<Rightarrow>
                  let root_type = rd32 st3 root o_type;
                      root_sec_type = rd32 st3 root o_sec_type
                  in if root_type \<noteq> T_HEADER then Some (False, st3)
                     else if root_sec_type \<noteq> ST_ROOT \<and> root_sec_type \<noteq> 0 then Some (False, st3)
                     else let st4 = st3\<lparr>volume_name := bcpl_read (blk st3 root) o_name\<rparr>
                          in (case parse_bitmap fuel st4 of
                                None \<Rightarrow> None
                              | Some st5 \<Rightarrow> Some (True, st5))))"

subsection \<open>The block allocator\<close>

definition update_bitmap_for_block :: "AdfImage \<Rightarrow> u32 \<Rightarrow> bool \<Rightarrow> AdfImage" where
  "update_bitmap_for_block st block is_free =
     (let total_blocks = (of_nat (file_size st div BLOCK_SIZE) :: u32)
      in if block \<ge> total_blocks then st
         else let bitmap_index = block div 4064;
                  bit_offset = block mod 4064;
                  word_index = unat (bit_offset div 32);
                  bit_index = unat (bit_offset mod 32)
              in if bitmap_index \<ge> 25 then st
                 else (case get_block st (root_block_num st) of
                         None \<Rightarrow> st
                       | Some root \<Rightarrow>
                           let bm_block = rd32 st root (o_bm_pages + 4 * unat bitmap_index)
                           in if bm_block = 0 then st
                              else (case get_block_writable st bm_block of
                                      None \<Rightarrow> st
                                    | Some bitmap \<Rightarrow>
                                        let map_word = rd32 st bitmap (o_map + 4 * word_index);
                                            map_word' = (if is_free then map_word OR push_bit bit_index 1
                                                         else map_word AND NOT (push_bit bit_index 1));
                                            st1 = wr32 st bitmap (o_map + 4 * word_index) map_word'
                                        in set_blk st1 bitmap (update_bitmap_checksum (blk st1 bitmap)))))"

text \<open>\<open>allocate_block\<close> returns 0 when it fails; \<open>*free_blocks_.begin()\<close> is the least
  element of the ordered set.\<close>

definition allocate_block :: "AdfImage \<Rightarrow> u32 \<times> AdfImage" where
  "allocate_block st =
     (if free_blocks st = {} then (0, st)
      else let block = Min (free_blocks st);
               bitmap_index = block div 4064
           in if bitmap_index \<ge> 25 then (0, st)
              else (case get_block st (root_block_num st) of
                      None \<Rightarrow> (0, st)
                    | Some root \<Rightarrow>
                        let bm_block = rd32 st root (o_bm_pages + 4 * unat bitmap_index)
                        in if bm_block = 0 then (0, st)
                           else let st1 = st\<lparr>free_blocks := free_blocks st - {block},
                                               used_blocks := insert block (used_blocks st)\<rparr>;
                                    st2 = update_bitmap_for_block st1 block False
                                in (case get_block_writable st2 block of
                                      None \<Rightarrow> (block, st2)
                                    | Some data \<Rightarrow>
                                        (block, set_blk st2 data (memset_at (blk st2 data) 0 0 BLOCK_SIZE)))))"

definition free_block :: "AdfImage \<Rightarrow> u32 \<Rightarrow> AdfImage" where
  "free_block st block =
     (if block < 2 \<or> block = root_block_num st then st
      else let st1 = st\<lparr>used_blocks := used_blocks st - {block},
                         free_blocks := insert block (free_blocks st)\<rparr>
           in update_bitmap_for_block st1 block True)"

subsection \<open>Time conversion and name hashing\<close>

text \<open>\<open>days * 24 * 60 * 60\<close> and \<open>mins * 60\<close> are computed in \<open>uint32_t\<close> before they
  are widened to \<open>time_t\<close>.\<close>

definition amiga_to_unix_time :: "u32 \<Rightarrow> u32 \<Rightarrow> u32 \<Rightarrow> int" where
  "amiga_to_unix_time days mins ticks =
     uint (days * 24 * 60 * 60) + uint (mins * 60) + uint (ticks div 50) + 2922 * 24 * 60 * 60"

text \<open>\<open>time_t\<close> division and remainder truncate towards zero.\<close>

definition unix_to_amiga_time :: "int \<Rightarrow> u32 \<times> u32 \<times> u32" where
  "unix_to_amiga_time unix_time =
     (let amiga_time = unix_time - 2922 * 24 * 60 * 60;
          days = (word_of_int (amiga_time sdiv (24 * 60 * 60)) :: u32);
          amiga_time1 = amiga_time smod (24 * 60 * 60);
          mins = (word_of_int (amiga_time1 sdiv 60) :: u32);
          amiga_time2 = amiga_time1 smod 60;
          ticks = (word_of_int (amiga_time2 * 50) :: u32)
      in (days, mins, ticks))"

definition touch_fileblock :: "block \<Rightarrow> int \<Rightarrow> block" where
  "touch_fileblock fb t =
     (case unix_to_amiga_time t of (d, m, ticks) \<Rightarrow>
        put_be32 (put_be32 (put_be32 fb o_days d) o_mins m) o_ticks ticks)"

definition touch_rootblock :: "block \<Rightarrow> int \<Rightarrow> block" where
  "touch_rootblock rb t =
     (case unix_to_amiga_time t of (d, m, ticks) \<Rightarrow>
        put_be32 (put_be32 (put_be32 rb o_root_days d) o_root_mins m) o_root_ticks ticks)"

definition toupper :: "u8 \<Rightarrow> u32" where
  "toupper c = (if 97 \<le> c \<and> c \<le> 122 then ucast c - 32 else ucast c)"

definition hash_name :: "cstring \<Rightarrow> nat" where
  "hash_name str =
     unat (fold (\<lambda>c hash. hash * 13 + toupper c) str (of_nat (length str) :: u32)
           mod of_nat HASH_TABLE_SIZE)"

subsection \<open>Directory listing and path lookup\<close>

definition make_entry :: "AdfImage \<Rightarrow> nat \<Rightarrow> u32 \<Rightarrow> Entry" where
  "make_entry st block block_num =
     (let dir = (rd32 st block o_sec_type = ST_DIR)
      in \<lparr>name_e = bcpl_read (blk st block) o_name,
          is_directory = dir,
          size_e = (if dir then 0 else unat (rd32 st block o_file_size)),
          mtime = amiga_to_unix_time (rd32 st block o_days) (rd32 st block o_mins)
                    (rd32 st block o_ticks),
          block_num_e = block_num\<rparr>)"

text \<open>The \<open>while (block_num != 0)\<close> loop of \<open>list_directory\<close> over one hash chain.\<close>

fun list_chain :: "nat \<Rightarrow> AdfImage \<Rightarrow> u32 \<Rightarrow> Entry list \<Rightarrow> Entry list option" where
  "list_chain 0 st block_num entries = None"
| "list_chain (Suc fuel) st block_num entries =
     (if block_num = 0 then Some entries
      else (case get_block st block_num of
              None \<Rightarrow> Some entries
            | Some block \<Rightarrow>
                if bcpl_read (blk st block) o_name = []
                then list_chain fuel st (rd32 st block o_hash_chain) entries
                else list_chain fuel st (rd32 st block o_hash_chain)
                       (entries @ [make_entry st block block_num])))"

text \<open>The \<open>for\<close> loop over the hash table of the directory block \<open>dir\<close>; the root block
  and a directory header keep the table at the same offset.\<close>

fun list_slots :: "nat \<Rightarrow> AdfImage \<Rightarrow> u32 \<Rightarrow> nat \<Rightarrow> nat list \<Rightarrow> Entry list \<Rightarrow> Entry list option" where
  "list_slots fuel st dir_block dir [] entries = Some entries"
| "list_slots fuel st dir_block dir (i # rest) entries =
     Option.bind
       (list_chain fuel st
          (if dir_block = root_block_num st then rd32 st dir (o_table + 4 * i)
           else rd32 st dir (o_table + 4 * i))
          entries)
       (\<lambda>entries1. list_slots fuel st dir_block dir rest entries1)"

definition cache_directory :: "AdfImage \<Rightarrow> cstring \<Rightarrow> Entry list \<Rightarrow> AdfImage" where
  "cache_directory st path entries = st\<lparr>dir_cache := (dir_cache st)(path \<mapsto> entries)\<rparr>"

text \<open>The part of \<open>list_directory\<close> after \<open>find_directory_block\<close>.\<close>

definition list_dir_block :: "nat \<Rightarrow> AdfImage \<Rightarrow> cstring \<Rightarrow> u32 \<Rightarrow> (Entry list option \<times> AdfImage) option" where
  "list_dir_block fuel st path dir_block =
     (if dir_block = 0 then Some (None, st)
      else (case get_block st dir_block of
              None \<Rightarrow> Some (None, st)
            | Some dir \<Rightarrow>
                Option.bind (list_slots fuel st dir_block dir hash_slots [])
                  (\<lambda>entries. Some (Some entries, cache_directory st path entries))))"

fun find_last_of :: "cstring \<Rightarrow> u8 \<Rightarrow> nat option" where
  "find_last_of [] c = None"
| "find_last_of (x # xs) c =
     (case find_last_of xs c of
        Some k \<Rightarrow> Some (Suc k)
      | None \<Rightarrow> if x = c then Some 0 else None)"

text \<open>\<open>'/'\<close> is byte 47. Without a slash \<open>find_last_of\<close> is \<open>npos\<close>: \<open>substr(0, npos)\<close>
  and \<open>substr(npos + 1)\<close> are both the whole path.\<close>

definition parent_path_of :: "cstring \<Rightarrow> cstring" where
  "parent_path_of path =
     (case find_last_of path 47 of
        None \<Rightarrow> path
      | Some last_slash \<Rightarrow> if last_slash = 0 then [47] else take last_slash path)"

definition entry_name_of :: "cstring \<Rightarrow> cstring" where
  "entry_name_of path =
     (case find_last_of path 47 of
        None \<Rightarrow> path
      | Some last_slash \<Rightarrow> drop (last_slash + 1) path)"

definition root_entry :: "AdfImage \<Rightarrow> int \<Rightarrow> Entry" where
  "root_entry st now =
     \<lparr>name_e = [], is_directory = True, size_e = 0, mtime = now,
      block_num_e = root_block_num st\<rparr>"

definition pick_entry :: "Entry list option \<Rightarrow> cstring \<Rightarrow> Entry option" where
  "pick_entry entries entry_name =
     (case entries of
        None \<Rightarrow> None
      | Some es \<Rightarrow> find (\<lambda>entry. name_e entry = entry_name) es)"

definition dir_block_of :: "Entry option \<Rightarrow> u32" where
  "dir_block_of entry =
     (case entry of
        Some e \<Rightarrow> if is_directory e then block_num_e e else 0
      | None \<Rightarrow> 0)"

fun get_entry :: "nat \<Rightarrow> int \<Rightarrow> AdfImage \<Rightarrow> cstring \<Rightarrow> (Entry option \<times> AdfImage) option"
  and list_directory :: "nat \<Rightarrow> int \<Rightarrow> AdfImage \<Rightarrow> cstring \<Rightarrow> (Entry list option \<times> AdfImage) option"
  and find_directory_block :: "nat \<Rightarrow> int \<Rightarrow> AdfImage \<Rightarrow> cstring \<Rightarrow> (u32 \<times> AdfImage) option" where
  "get_entry 0 now st path = None"
| "get_entry (Suc fuel) now st path =
     (if path = [47] \<or> path = [] then Some (Some (root_entry st now), st)
      else Option.bind (list_directory fuel now st (parent_path_of path))
             (\<lambda>(entries, st1). Some (pick_entry entries (entry_name_of path), st1)))"
| "list_directory 0 now st path = None"
| "list_directory (Suc fuel) now st path =
     (case dir_cache st path of
        Some cached \<Rightarrow> Some (Some cached, st)
      | None \<Rightarrow>
          Option.bind (find_directory_block fuel now st path)
            (\<lambda>(dir_block, st1). list_dir_block fuel st1 path dir_block))"
| "find_directory_block 0 now st path = None"
| "find_directory_block (Suc fuel) now st path =
     (if path = [47] \<or> path = [] then Some (root_block_num st, st)
      else Option.bind (get_entry fuel now st path)
             (\<lambda>(entry, st1). Some (dir_block_of entry, st1)))"

subsection \<open>\<open>read_file\<close>\<close>

text \<open>\<open>size_t\<close> subtraction (it wraps below zero).\<close>

definition sz_sub :: "nat \<Rightarrow> nat \<Rightarrow> nat" where
  "sz_sub a b = (if b \<le> a then a - b else 2 ^ 64 - (b - a))"











subsection \<open>\<open>write_file\<close>\<close>

type_synonym result = "errno + nat"

text \<open>\<open>update_checksum(p)\<close> on the block behind a pointer was defined as
  \<open>checksum_block\<close>; the header fields a fresh data block receives:\<close>

definition init_data_block :: "AdfImage \<Rightarrow> nat \<Rightarrow> u32 \<Rightarrow> u32 \<Rightarrow> AdfImage" where
  "init_data_block st new_data file_block_num seq =
     (let st1 = wr32 st new_data o_type T_DATA;
          st2 = wr32 st1 new_data o_header_key file_block_num;
          st3 = wr32 st2 new_data o_seq_num seq;
          st4 = wr32 st3 new_data o_data_size 0;
          st5 = wr32 st4 new_data o_next_data 0
      in set_blk st5 new_data (memset_at (blk st5 new_data) o_data 0 488))"

text \<open>Linking \<open>new_block\<close> behind \<open>prev_block\<close>, or into \<open>first_data\<close> of the header.\<close>

definition link_block :: "AdfImage \<Rightarrow> nat \<Rightarrow> u32 \<Rightarrow> u32 \<Rightarrow> AdfImage" where
  "link_block st file_block prev_block new_block =
     (if prev_block \<noteq> 0 then
        (case get_block_writable st prev_block of
           None \<Rightarrow> st
         | Some prev_data \<Rightarrow> checksum_block (wr32 st prev_data o_next_data new_block) prev_data)
      else checksum_block (wr32 st file_block o_first_data new_block) file_block)"

text \<open>The size update and the allocation of a first data block; the result is
  \<open>first_data_block\<close>.\<close>

definition write_begin :: "AdfImage \<Rightarrow> nat \<Rightarrow> u32 \<Rightarrow> nat \<Rightarrow> nat \<Rightarrow> (errno + u32) \<times> AdfImage" where
  "write_begin st file_block file_block_num sz offset =
     (let current_size = rd32 st file_block o_file_size;
          new_size = max current_size (of_nat (offset + sz));
          st1 = (if new_size \<noteq> current_size
                 then checksum_block (wr32 st file_block o_file_size new_size) file_block
                 else st);
          first_data_block = rd32 st1 file_block o_first_data
      in if first_data_block = 0 \<and> sz > 0 then
           (case allocate_block st1 of (first_data_block1, st2) \<Rightarrow>
              if first_data_block1 = 0 then (Inl ENOSPC, st2)
              else let st3 = checksum_block (wr32 st2 file_block o_first_data first_data_block1)
                               file_block
                   in (case get_block_writable st3 first_data_block1 of
                         None \<Rightarrow> (Inr first_data_block1, st3)
                       | Some data_block \<Rightarrow>
                           let st4 = wr32 st3 data_block o_type T_DATA;
                               st5 = wr32 st4 data_block o_header_key file_block_num;
                               st6 = wr32 st5 data_block o_seq_num 1;
                               st7 = wr32 st6 data_block o_next_data 0
                           in (Inr first_data_block1, st7)))
         else (Inr first_data_block, st1))"

text \<open>Walking the existing chain; the result is \<open>(current_block, prev_block, current_pos)\<close>.\<close>

function walk_chain :: "AdfImage \<Rightarrow> u32 \<Rightarrow> u32 \<Rightarrow> nat \<Rightarrow> nat \<Rightarrow> errno + (u32 \<times> u32 \<times> nat)" where
  "walk_chain st current_block prev_block current_pos target_offset =
     (if current_block \<noteq> 0 then
        (case get_block st current_block of
           None \<Rightarrow> Inl EIO
         | Some data_block \<Rightarrow>
             if current_pos + 488 > target_offset then Inr (current_block, prev_block, current_pos)
             else walk_chain st (rd32 st data_block o_next_data) current_block
                    (current_pos + 488) target_offset)
      else Inr (current_block, prev_block, current_pos))"
  by pat_completeness auto
termination
  by (relation "measure (\<lambda>(st, cb, pb, current_pos, target_offset). target_offset - current_pos)")
    auto

text \<open>One zero-filled block of the gap; the result is \<open>new_block\<close>.\<close>

definition bridge_step :: "AdfImage \<Rightarrow> nat \<Rightarrow> u32 \<Rightarrow> u32 \<Rightarrow> nat \<Rightarrow> (errno + u32) \<times> AdfImage" where
  "bridge_step st file_block file_block_num prev_block current_pos =
     (case allocate_block st of (new_block, st1) \<Rightarrow>
        if new_block = 0 then (Inl ENOSPC, st1)
        else (case get_block_writable st1 new_block of
                None \<Rightarrow> (Inl EIO, st1)
              | Some new_data \<Rightarrow>
                  let st2 = init_data_block st1 new_data file_block_num
                              (of_nat (current_pos div 488 + 1));
                      st3 = link_block st2 file_block prev_block new_block;
                      st4 = checksum_block st3 new_data
                  in (Inr new_block, st4)))"

function bridge_gaps :: "AdfImage \<Rightarrow> nat \<Rightarrow> u32 \<Rightarrow> u32 \<Rightarrow> u32 \<Rightarrow> nat \<Rightarrow> nat
    \<Rightarrow> (errno + (u32 \<times> u32 \<times> nat)) \<times> AdfImage" where
  "bridge_gaps st file_block file_block_num current_block prev_block current_pos target_offset =
     (if current_pos + 488 \<le> target_offset then
        (case bridge_step st file_block file_block_num prev_block current_pos of
           (Inl e, st1) \<Rightarrow> (Inl e, st1)
         | (Inr new_block, st1) \<Rightarrow>
             bridge_gaps st1 file_block file_block_num new_block new_block (current_pos + 488)
               target_offset)
      else (Inr (current_block, prev_block, current_pos), st))"
  by pat_completeness auto
termination
  by (relation "measure (\<lambda>(st, fb, fbn, cb, pb, current_pos, target_offset).
                           target_offset - current_pos)") auto

text \<open>One turn of the loop that stores the payload. A turn either returns from
  \<open>write_file\<close> or hands on
  \<open>(current_block, prev_block, current_pos, bytes_written, write_pos)\<close>.\<close>

datatype 'a flow = Return result | Next 'a

definition write_alloc :: "AdfImage \<Rightarrow> nat \<Rightarrow> u32 \<Rightarrow> u32 \<Rightarrow> u32 \<Rightarrow> nat \<Rightarrow> nat
    \<Rightarrow> u32 flow \<times> AdfImage" where
  "write_alloc st file_block file_block_num current_block prev_block current_pos bytes_written =
     (if current_block = 0 then
        (case allocate_block st of (current_block1, st1) \<Rightarrow>
           if current_block1 = 0 then (Return (Inr bytes_written), st1)
           else (case get_block_writable st1 current_block1 of
                   None \<Rightarrow> (Return (Inl EIO), st1)
                 | Some new_data \<Rightarrow>
                     let st2 = init_data_block st1 new_data file_block_num
                                 (of_nat (current_pos div 488 + 1));
                         st3 = link_block st2 file_block prev_block current_block1;
                         st4 = checksum_block st3 new_data
                     in (Next current_block1, st4)))
      else (Next current_block, st))"

definition write_chunk :: "AdfImage \<Rightarrow> u8 list \<Rightarrow> nat \<Rightarrow> u32 \<Rightarrow> u32 \<Rightarrow> nat \<Rightarrow> nat \<Rightarrow> nat
    \<Rightarrow> (u32 \<times> u32 \<times> nat \<times> nat \<times> nat) flow \<times> AdfImage" where
  "write_chunk st buf sz current_block prev_block current_pos bytes_written write_pos =
     (case get_block_writable st current_block of
        None \<Rightarrow> (Return (Inl EIO), st)
      | Some data_block \<Rightarrow>
          let block_start = (current_pos div 488) * 488;
              block_offset = sz_sub write_pos block_start;
              write_size = min (sz - bytes_written) (sz_sub 488 block_offset)
          in if block_offset \<ge> 488 then (Return (Inl EIO), st)
             else let st1 = set_blk st data_block
                              (memcpy_to (blk st data_block) (o_data + block_offset)
                                 (take write_size (drop bytes_written buf)));
                      old_size = rd32 st1 data_block o_data_size;
                      new_size = max old_size (of_nat (block_offset + write_size));
                      st2 = wr32 st1 data_block o_data_size new_size;
                      st3 = checksum_block st2 data_block;
                      bytes_written1 = bytes_written + write_size;
                      write_pos1 = write_pos + write_size
                  in if block_offset + write_size \<ge> 488
                     then (Next (rd32 st3 data_block o_next_data, current_block,
                                 (current_pos div 488 + 1) * 488, bytes_written1, write_pos1), st3)
                     else (Next (current_block, prev_block, current_pos, bytes_written1,
                                 write_pos1), st3))"

definition write_step :: "AdfImage \<Rightarrow> nat \<Rightarrow> u32 \<Rightarrow> u8 list \<Rightarrow> nat \<Rightarrow> u32 \<Rightarrow> u32 \<Rightarrow> nat \<Rightarrow> nat \<Rightarrow> nat
    \<Rightarrow> (u32 \<times> u32 \<times> nat \<times> nat \<times> nat) flow \<times> AdfImage" where
  "write_step st file_block file_block_num buf sz current_block prev_block current_pos
     bytes_written write_pos =
     (case write_alloc st file_block file_block_num current_block prev_block current_pos
             bytes_written of
        (Return r, st1) \<Rightarrow> (Return r, st1)
      | (Next current_block1, st1) \<Rightarrow>
          write_chunk st1 buf sz current_block1 prev_block current_pos bytes_written write_pos)"

lemma write_chunk_progress:
  assumes "bytes_written < sz"
    and "write_chunk st buf sz cb pb cp bytes_written wp = (Next (cb1, pb1, cp1, bw1, wp1), st1)"
  shows "bytes_written < bw1"
proof -
  obtain db where db: "get_block_writable st cb = Some db"
    using assms(2) by (cases "get_block_writable st cb") (simp_all add: write_chunk_def)
  define bo where "bo = sz_sub wp ((cp div 488) * 488)"
  define ws where "ws = min (sz - bytes_written) (sz_sub 488 bo)"
  have lt: "bo < 488"
    using assms(2) db unfolding write_chunk_def bo_def by (auto simp: Let_def split: if_splits)
  then have "0 < ws" using assms(1) unfolding ws_def by (simp add: sz_sub_def)
  moreover have "bw1 = bytes_written + ws"
    using assms(2) db lt unfolding write_chunk_def bo_def ws_def
    by (auto simp: Let_def split: if_splits)
  ultimately show ?thesis by simp
qed

lemma write_step_progress:
  assumes "bytes_written < sz"
    and "write_step st fb fbn buf sz cb pb cp bytes_written wp = (Next (cb1, pb1, cp1, bw1, wp1), st1)"
  shows "bytes_written < bw1"
  using assms write_chunk_progress
  by (auto simp: write_step_def split: prod.splits flow.splits)

function write_loop :: "AdfImage \<Rightarrow> nat \<Rightarrow> u32 \<Rightarrow> u8 list \<Rightarrow> nat \<Rightarrow> u32 \<Rightarrow> u32 \<Rightarrow> nat \<Rightarrow> nat \<Rightarrow> nat
    \<Rightarrow> nat flow \<times> AdfImage" where
  "write_loop st file_block file_block_num buf sz current_block prev_block current_pos
     bytes_written write_pos =
     (if bytes_written < sz then
        (case write_step st file_block file_block_num buf sz current_block prev_block current_pos
                bytes_written write_pos of
           (Return r, st1) \<Rightarrow> (Return r, st1)
         | (Next (current_block1, prev_block1, current_pos1, bytes_written1, write_pos1), st1) \<Rightarrow>
             write_loop st1 file_block file_block_num buf sz current_block1 prev_block1
               current_pos1 bytes_written1 write_pos1)
      else (Next bytes_written, st))"
  by pat_completeness auto
termination
  apply (relation "measure (\<lambda>(st, fb, fbn, buf, sz, cb, pb, cp, bytes_written, wp).
                             sz - bytes_written)")
   apply simp
  subgoal premises prems for st fb fbn buf sz cb pb cp bw wp x y x2 xa ya xb yb xc yaa xd yab
  proof -
    have "write_step st fb fbn buf sz cb pb cp bw wp = (Next (xa, xb, xc, xd, yab), y)"
      using prems(2-7) by simp
    from write_step_progress [OF prems(1) this] show ?thesis using prems(1) by simp
  qed
  done

text \<open>\<open>buf\<close> holds the \<open>sz\<close> bytes the caller passes.\<close>

definition write_file :: "AdfImage \<Rightarrow> u32 \<Rightarrow> u8 list \<Rightarrow> nat \<Rightarrow> nat \<Rightarrow> int \<Rightarrow> result \<times> AdfImage" where
  "write_file st file_block_num buf sz offset now =
     (if read_only st then (Inl EROFS, st)
      else if file_block_num = 0 then (Inl ENOENT, st)
      else (case get_block_writable st file_block_num of
              None \<Rightarrow> (Inl EIO, st)
            | Some file_block \<Rightarrow>
                (case write_begin st file_block file_block_num sz offset of
                   (Inl e, st1) \<Rightarrow> (Inl e, st1)
                 | (Inr first_data_block, st1) \<Rightarrow>
                     (case walk_chain st1 first_data_block 0 0 offset of
                        Inl e \<Rightarrow> (Inl e, st1)
                      | Inr (current_block, prev_block, current_pos) \<Rightarrow>
                          (case bridge_gaps st1 file_block file_block_num current_block
                                  prev_block current_pos offset of
                             (Inl e, st2) \<Rightarrow> (Inl e, st2)
                           | (Inr (current_block1, prev_block1, current_pos1), st2) \<Rightarrow>
                               (case write_loop st2 file_block file_block_num buf sz
                                       current_block1 prev_block1 current_pos1 0 offset of
                                  (Return r, st3) \<Rightarrow> (r, st3)
                                | (Next bytes_written, st3) \<Rightarrow>
                                    (Inr bytes_written,
                                     checksum_block
                                       (set_blk st3 file_block
                                          (touch_fileblock (blk st3 file_block) now))
                                       file_block)))))))"

subsection \<open>Directory insertion and removal\<close>

definition add_to_directory :: "AdfImage \<Rightarrow> u32 \<Rightarrow> u32 \<Rightarrow> cstring \<Rightarrow> int \<Rightarrow> AdfImage" where
  "add_to_directory st dir_block file_block name now =
     (let hash = hash_name name
      in if dir_block = root_block_num st then
           (case get_block_writable st dir_block of
              None \<Rightarrow> st
            | Some root \<Rightarrow>
                let existing = rd32 st root (o_table + 4 * hash);
                    st1 = wr32 st root (o_table + 4 * hash) file_block;
                    st2 = (case get_block_writable st1 file_block of
                             None \<Rightarrow> st1
                           | Some file \<Rightarrow> checksum_block (wr32 st1 file o_hash_chain existing) file);
                    st3 = set_blk st2 root (touch_rootblock (blk st2 root) now)
                in checksum_block st3 root)
         else
           (case get_block_writable st dir_block of
              None \<Rightarrow> st
            | Some dir \<Rightarrow>
                let existing = rd32 st dir (o_table + 4 * hash);
                    st1 = wr32 st dir (o_table + 4 * hash) file_block;
                    st2 = (case get_block_writable st1 file_block of
                             None \<Rightarrow> st1
                           | Some file \<Rightarrow> checksum_block (wr32 st1 file o_hash_chain existing) file);
                    st3 = set_blk st2 dir (touch_fileblock (blk st2 dir) now)
                in checksum_block st3 dir))"

fun remove_from_chain :: "nat \<Rightarrow> AdfImage \<Rightarrow> u32 \<Rightarrow> u32 \<Rightarrow> (bool \<times> AdfImage) option" where
  "remove_from_chain 0 st current target_block = None"
| "remove_from_chain (Suc fuel) st current target_block =
     (if current = 0 then Some (False, st)
      else (case get_block_writable st current of
              None \<Rightarrow> Some (False, st)
            | Some block \<Rightarrow>
                if rd32 st block o_hash_chain = target_block then
                  Some (True,
                        checksum_block
                          (wr32 st block o_hash_chain
                             (case get_block st target_block of
                                None \<Rightarrow> 0
                              | Some target \<Rightarrow> rd32 st target o_hash_chain))
                          block)
                else remove_from_chain fuel st (rd32 st block o_hash_chain) target_block))"

definition remove_from_directory :: "nat \<Rightarrow> AdfImage \<Rightarrow> u32 \<Rightarrow> u32 \<Rightarrow> cstring \<Rightarrow> int
    \<Rightarrow> AdfImage option" where
  "remove_from_directory fuel st dir_block file_block name now =
     (let hash = hash_name name
      in if dir_block = root_block_num st then
           (case get_block_writable st dir_block of
              None \<Rightarrow> Some st
            | Some root \<Rightarrow>
                let current = rd32 st root (o_table + 4 * hash)
                in if current = file_block then
                     let st1 = wr32 st root (o_table + 4 * hash)
                                 (case get_block st file_block of
                                    None \<Rightarrow> 0
                                  | Some file \<Rightarrow> rd32 st file o_hash_chain);
                         st2 = set_blk st1 root (touch_rootblock (blk st1 root) now)
                     in Some (checksum_block st2 root)
                   else
                     (case remove_from_chain fuel st current file_block of
                        None \<Rightarrow> None
                      | Some (found, st1) \<Rightarrow>
                          if found
                          then Some (checksum_block
                                       (set_blk st1 root (touch_rootblock (blk st1 root) now)) root)
                          else Some st1))
         else
           (case get_block_writable st dir_block of
              None \<Rightarrow> Some st
            | Some dir \<Rightarrow>
                let current = rd32 st dir (o_table + 4 * hash)
                in if current = file_block then
                     let st1 = wr32 st dir (o_table + 4 * hash)
                                 (case get_block st file_block of
                                    None \<Rightarrow> 0
                                  | Some file \<Rightarrow> rd32 st file o_hash_chain);
                         st2 = set_blk st1 dir (touch_fileblock (blk st1 dir) now)
                     in Some (checksum_block st2 dir)
                   else
                     (case remove_from_chain fuel st current file_block of
                        None \<Rightarrow> None
                      | Some (found, st1) \<Rightarrow>
                          if found
                          then Some (checksum_block
                                       (set_blk st1 dir (touch_fileblock (blk st1 dir) now)) dir)
                          else Some st1)))"

subsection \<open>\<open>create_file\<close>, \<open>delete_file\<close>, \<open>truncate_file\<close>\<close>

definition clear_dir_cache :: "AdfImage \<Rightarrow> AdfImage" where
  "clear_dir_cache st = st\<lparr>dir_cache := Map.empty\<rparr>"

text \<open>The header block \<open>create_file\<close> writes into the allocated block \<open>file\<close>.\<close>

definition init_file_header :: "AdfImage \<Rightarrow> nat \<Rightarrow> u32 \<Rightarrow> u32 \<Rightarrow> cstring \<Rightarrow> int \<Rightarrow> AdfImage" where
  "init_file_header st file file_block parent_block filename now =
     (let st1 = set_blk st file (memset_at (blk st file) 0 0 BLOCK_SIZE);
          st2 = wr32 st1 file o_type T_HEADER;
          st3 = wr32 st2 file o_header_key file_block;
          st4 = wr32 st3 file o_parent parent_block;
          st5 = wr32 st4 file o_sec_type ST_FILE;
          st6 = wr32 st5 file o_file_size 0;
          st7 = wr32 st6 file o_first_data 0;
          st8 = set_blk st7 file (bcpl_write (blk st7 file) o_name filename);
          st9 = set_blk st8 file (touch_fileblock (blk st8 file) now)
      in checksum_block st9 file)"

text \<open>The part of \<open>create_file\<close> after the lookups.\<close>

definition create_in :: "AdfImage \<Rightarrow> u32 \<Rightarrow> cstring \<Rightarrow> int \<Rightarrow> result \<times> AdfImage" where
  "create_in st parent_block filename now =
     (case allocate_block st of (file_block, st1) \<Rightarrow>
        if file_block = 0 then (Inl ENOSPC, st1)
        else (case get_block_writable st1 file_block of
                None \<Rightarrow> (Inl EIO, free_block st1 file_block)
              | Some file \<Rightarrow>
                  let st2 = init_file_header st1 file file_block parent_block filename now;
                      st3 = add_to_directory st2 parent_block file_block filename now
                  in (Inr 0, clear_dir_cache st3)))"

definition create_file :: "nat \<Rightarrow> int \<Rightarrow> AdfImage \<Rightarrow> cstring \<Rightarrow> (result \<times> AdfImage) option" where
  "create_file fuel now st path =
     (if read_only st then Some (Inl EROFS, st)
      else let parent_path = parent_path_of path;
               filename = entry_name_of path
           in if length filename > BCPL_STRING_MAX then Some (Inl ENAMETOOLONG, st)
              else (case get_entry fuel now st path of
                      None \<Rightarrow> None
                    | Some (Some entry, st1) \<Rightarrow> Some (Inl EEXIST, st1)
                    | Some (None, st1) \<Rightarrow>
                        (case find_directory_block fuel now st1 parent_path of
                           None \<Rightarrow> None
                         | Some (parent_block, st2) \<Rightarrow>
                             if parent_block = 0 then Some (Inl ENOENT, st2)
                             else Some (create_in st2 parent_block filename now))))"

text \<open>The loop that frees a data chain (in \<open>delete_file\<close> and in \<open>truncate_file\<close>).\<close>

fun free_chain :: "nat \<Rightarrow> AdfImage \<Rightarrow> u32 \<Rightarrow> AdfImage option" where
  "free_chain 0 st data_block = None"
| "free_chain (Suc fuel) st data_block =
     (if data_block = 0 then Some st
      else free_chain fuel (free_block st data_block)
             (case get_block st data_block of
                None \<Rightarrow> 0
              | Some data \<Rightarrow> rd32 st data o_next_data))"

definition delete_entry :: "nat \<Rightarrow> AdfImage \<Rightarrow> u32 \<Rightarrow> Entry \<Rightarrow> int \<Rightarrow> (result \<times> AdfImage) option" where
  "delete_entry fuel st parent_block entry now =
     (case remove_from_directory fuel st parent_block (block_num_e entry) (name_e entry) now of
        None \<Rightarrow> None
      | Some st1 \<Rightarrow>
          (case (case get_block st1 (block_num_e entry) of
                   None \<Rightarrow> Some st1
                 | Some file \<Rightarrow> free_chain fuel st1 (rd32 st1 file o_first_data)) of
             None \<Rightarrow> None
           | Some st2 \<Rightarrow> Some (Inr 0, clear_dir_cache (free_block st2 (block_num_e entry)))))"

definition delete_file :: "nat \<Rightarrow> int \<Rightarrow> AdfImage \<Rightarrow> cstring \<Rightarrow> (result \<times> AdfImage) option" where
  "delete_file fuel now st path =
     (if read_only st then Some (Inl EROFS, st)
      else (case get_entry fuel now st path of
              None \<Rightarrow> None
            | Some (None, st1) \<Rightarrow> Some (Inl ENOENT, st1)
            | Some (Some entry, st1) \<Rightarrow>
                if is_directory entry then Some (Inl EISDIR, st1)
                else (case find_directory_block fuel now st1 (parent_path_of path) of
                        None \<Rightarrow> None
                      | Some (parent_block, st2) \<Rightarrow> delete_entry fuel st2 parent_block entry now)))"

text \<open>The first loop of \<open>truncate_file\<close>: it keeps \<open>blocks_needed\<close> blocks; the result is
  \<open>(data_block, prev_block)\<close>.\<close>

lemma unat_inc_less: "(a::u32) < b \<Longrightarrow> unat (a + 1) = Suc (unat a)"
proof -
  assume "a < b"
  then have "unat a < unat b" by (simp add: word_less_nat_alt)
  moreover have "unat b < 2 ^ 32" using unsigned_less [of b] by simp
  ultimately have "unat a + unat (1::u32) < 2 ^ LENGTH(32)" by simp
  then have "unat (a + 1) = unat a + unat (1::u32)" by (simp only: unat_add_lem [THEN iffD1])
  then show ?thesis by simp
qed

function keep_blocks :: "AdfImage \<Rightarrow> u32 \<Rightarrow> u32 \<Rightarrow> u32 \<Rightarrow> u32 \<Rightarrow> u32 \<times> u32" where
  "keep_blocks st data_block prev_block block_count blocks_needed =
     (if data_block \<noteq> 0 \<and> block_count < blocks_needed then
        keep_blocks st
          (case get_block st data_block of
             None \<Rightarrow> 0
           | Some data \<Rightarrow> rd32 st data o_next_data)
          data_block (block_count + 1) blocks_needed
      else (data_block, prev_block))"
  by pat_completeness auto
termination
  apply (relation "measure (\<lambda>(st, db, pb, block_count, blocks_needed).
                             unat blocks_needed - unat block_count)")
   apply simp
  apply (clarsimp simp: unat_inc_less)
  apply (simp add: word_less_nat_alt)
  done

text \<open>\<open>off_t size\<close> is a signed 64-bit value; the casts to \<open>uint32_t\<close> keep the low
  32 bits, division and remainder truncate towards zero.\<close>

definition truncate_chain :: "nat \<Rightarrow> AdfImage \<Rightarrow> nat \<Rightarrow> int \<Rightarrow> u32 \<Rightarrow> AdfImage option" where
  "truncate_chain fuel st file sz blocks_needed =
     (case keep_blocks st (rd32 st file o_first_data) 0 0 blocks_needed of
        (data_block, prev_block) \<Rightarrow>
          (case free_chain fuel st data_block of
             None \<Rightarrow> None
           | Some st1 \<Rightarrow>
               if prev_block \<noteq> 0 then
                 (case get_block_writable st1 prev_block of
                    None \<Rightarrow> Some st1
                  | Some data \<Rightarrow>
                      let st2 = wr32 st1 data o_next_data 0;
                          remainder = (word_of_int (sz smod 488) :: u32);
                          remainder1 = (if remainder = 0 \<and> sz > 0 then 488 else remainder);
                          st3 = wr32 st2 data o_data_size remainder1
                      in Some (checksum_block st3 data))
               else if sz = 0 then Some (wr32 st1 file o_first_data 0)
               else Some st1))"

definition truncate_entry :: "nat \<Rightarrow> AdfImage \<Rightarrow> Entry \<Rightarrow> int \<Rightarrow> int \<Rightarrow> (result \<times> AdfImage) option" where
  "truncate_entry fuel st entry sz now =
     (case get_block_writable st (block_num_e entry) of
        None \<Rightarrow> Some (Inl EIO, st)
      | Some file \<Rightarrow>
          let current_size = rd32 st file o_file_size
          in if sz = uint current_size then Some (Inr 0, st)
             else (case (if sz < uint current_size then
                           let blocks_needed = (word_of_int ((sz + 487) sdiv 488) :: u32);
                               current_blocks = (current_size + 487) div 488
                           in if blocks_needed < current_blocks
                              then truncate_chain fuel st file sz blocks_needed
                              else Some st
                         else Some st) of
                     None \<Rightarrow> None
                   | Some st1 \<Rightarrow>
                       let st2 = wr32 st1 file o_file_size (word_of_int sz);
                           st3 = set_blk st2 file (touch_fileblock (blk st2 file) now)
                       in Some (Inr 0, checksum_block st3 file)))"

definition truncate_file :: "nat \<Rightarrow> int \<Rightarrow> AdfImage \<Rightarrow> cstring \<Rightarrow> int \<Rightarrow> (result \<times> AdfImage) option" where
  "truncate_file fuel now st path sz =
     (if read_only st then Some (Inl EROFS, st)
      else (case get_entry fuel now st path of
              None \<Rightarrow> None
            | Some (None, st1) \<Rightarrow> Some (Inl ENOENT, st1)
            | Some (Some entry, st1) \<Rightarrow>
                if is_directory entry then Some (Inl EISDIR, st1)
                else truncate_entry fuel st1 entry sz now))"

subsection \<open>\<open>create_directory\<close>, \<open>delete_directory\<close>\<close>

text \<open>The header block \<open>create_directory\<close> writes into the allocated block \<open>dir\<close>.\<close>

definition init_dir_header :: "AdfImage \<Rightarrow> nat \<Rightarrow> u32 \<Rightarrow> u32 \<Rightarrow> cstring \<Rightarrow> int \<Rightarrow> AdfImage" where
  "init_dir_header st dir dir_block parent_block dirname now =
     (let st1 = set_blk st dir (memset_at (blk st dir) 0 0 BLOCK_SIZE);
          st2 = wr32 st1 dir o_type T_HEADER;
          st3 = wr32 st2 dir o_header_key dir_block;
          st4 = wr32 st3 dir o_parent parent_block;
          st5 = wr32 st4 dir o_sec_type ST_DIR;
          st6 = set_blk st5 dir (bcpl_write (blk st5 dir) o_name dirname);
          st7 = set_blk st6 dir (touch_fileblock (blk st6 dir) now)
      in checksum_block st7 dir)"

text \<open>The part of \<open>create_directory\<close> after the lookups.\<close>

definition create_dir_in :: "AdfImage \<Rightarrow> u32 \<Rightarrow> cstring \<Rightarrow> int \<Rightarrow> result \<times> AdfImage" where
  "create_dir_in st parent_block dirname now =
     (case allocate_block st of (dir_block, st1) \<Rightarrow>
        if dir_block = 0 then (Inl ENOSPC, st1)
        else (case get_block_writable st1 dir_block of
                None \<Rightarrow> (Inl EIO, free_block st1 dir_block)
              | Some dir \<Rightarrow>
                  let st2 = init_dir_header st1 dir dir_block parent_block dirname now;
                      st3 = add_to_directory st2 parent_block dir_block dirname now
                  in (Inr 0, clear_dir_cache st3)))"

definition create_directory :: "nat \<Rightarrow> int \<Rightarrow> AdfImage \<Rightarrow> cstring \<Rightarrow> (result \<times> AdfImage) option" where
  "create_directory fuel now st path =
     (if read_only st then Some (Inl EROFS, st)
      else let parent_path = parent_path_of path;
               dirname = entry_name_of path
           in if length dirname > BCPL_STRING_MAX then Some (Inl ENAMETOOLONG, st)
              else (case get_entry fuel now st path of
                      None \<Rightarrow> None
                    | Some (Some entry, st1) \<Rightarrow> Some (Inl EEXIST, st1)
                    | Some (None, st1) \<Rightarrow>
                        (case find_directory_block fuel now st1 parent_path of
                           None \<Rightarrow> None
                         | Some (parent_block, st2) \<Rightarrow>
                             if parent_block = 0 then Some (Inl ENOENT, st2)
                             else Some (create_dir_in st2 parent_block dirname now))))"

text \<open>The part of \<open>delete_directory\<close> after the directory was found empty.\<close>

definition delete_dir_entry :: "nat \<Rightarrow> AdfImage \<Rightarrow> u32 \<Rightarrow> Entry \<Rightarrow> int \<Rightarrow> (result \<times> AdfImage) option" where
  "delete_dir_entry fuel st parent_block entry now =
     (case remove_from_directory fuel st parent_block (block_num_e entry) (name_e entry) now of
        None \<Rightarrow> None
      | Some st1 \<Rightarrow> Some (Inr 0, clear_dir_cache (free_block st1 (block_num_e entry))))"

definition delete_directory :: "nat \<Rightarrow> int \<Rightarrow> AdfImage \<Rightarrow> cstring \<Rightarrow> (result \<times> AdfImage) option" where
  "delete_directory fuel now st path =
     (if read_only st then Some (Inl EROFS, st)
      else if path = [47] \<or> path = [] then Some (Inl EINVAL, st)
      else (case get_entry fuel now st path of
              None \<Rightarrow> None
            | Some (None, st1) \<Rightarrow> Some (Inl ENOENT, st1)
            | Some (Some entry, st1) \<Rightarrow>
                if \<not> is_directory entry then Some (Inl ENOTDIR, st1)
                else (case list_directory fuel now st1 path of
                        None \<Rightarrow> None
                      | Some (contents, st2) \<Rightarrow>
                          if (case contents of None \<Rightarrow> False | Some es \<Rightarrow> es \<noteq> [])
                          then Some (Inl ENOTEMPTY, st2)
                          else (case find_directory_block fuel now st2 (parent_path_of path) of
                                  None \<Rightarrow> None
                                | Some (parent_block, st3) \<Rightarrow>
                                    delete_dir_entry fuel st3 parent_block entry now))))"

section \<open>Basic facts about the image accessors\<close>

lemma be32_put_same [simp]: "be32 (put_be32 b off v) off = v"
proof (rule bit_word_eqI)
  fix n assume n: "n < LENGTH(32)"
  consider "n < 8" | "8 \<le> n" "n < 16" | "16 \<le> n" "n < 24" | "24 \<le> n" by linarith
  then show "bit (be32 (put_be32 b off v) off) n = bit v n"
    using n by cases (auto simp: be32_def put_be32_def bit_simps)
qed

lemma be32_put_other [simp]:
  "off' + 4 \<le> off \<or> off + 4 \<le> off' \<Longrightarrow> be32 (put_be32 b off v) off' = be32 b off'"
  unfolding be32_def put_be32_def by auto

lemma be32_put_word_other [simp]:
  "i \<noteq> k \<Longrightarrow> be32 (put_be32 b (4 * k) v) (4 * i) = be32 b (4 * i)"
  by (rule be32_put_other) arith

lemma put_be32_outside:
  "a < off \<or> off + 4 \<le> a \<Longrightarrow> put_be32 b off v a = b a"
  unfolding put_be32_def by auto

lemma be32_cong: "(\<And>a. off \<le> a \<Longrightarrow> a < off + 4 \<Longrightarrow> b a = b' a) \<Longrightarrow> be32 b off = be32 b' off"
  unfolding be32_def by simp

lemma set_blk_fields [simp]:
  "mapped (set_blk st p b) = mapped st"
  "file_size (set_blk st p b) = file_size st"
  "dos_type (set_blk st p b) = dos_type st"
  "root_block_num (set_blk st p b) = root_block_num st"
  "volume_name (set_blk st p b) = volume_name st"
  "is_ffs (set_blk st p b) = is_ffs st"
  "read_only (set_blk st p b) = read_only st"
  "dir_cache (set_blk st p b) = dir_cache st"
  "free_blocks (set_blk st p b) = free_blocks st"
  "used_blocks (set_blk st p b) = used_blocks st"
  by (simp_all add: set_blk_def)

lemma blk_set_blk [simp]: "blk (set_blk st p b) q = (if q = p then b else blk st q)"
  by (simp add: blk_def set_blk_def)

lemma wr32_fields [simp]:
  "mapped (wr32 st p off v) = mapped st"
  "file_size (wr32 st p off v) = file_size st"
  "dos_type (wr32 st p off v) = dos_type st"
  "root_block_num (wr32 st p off v) = root_block_num st"
  "volume_name (wr32 st p off v) = volume_name st"
  "is_ffs (wr32 st p off v) = is_ffs st"
  "read_only (wr32 st p off v) = read_only st"
  "dir_cache (wr32 st p off v) = dir_cache st"
  "free_blocks (wr32 st p off v) = free_blocks st"
  "used_blocks (wr32 st p off v) = used_blocks st"
  by (simp_all add: wr32_def)

lemma blk_wr32 [simp]:
  "blk (wr32 st p off v) q = (if q = p then put_be32 (blk st p) off v else blk st q)"
  by (simp add: wr32_def)

lemma checksum_block_fields [simp]:
  "mapped (checksum_block st p) = mapped st"
  "file_size (checksum_block st p) = file_size st"
  "dos_type (checksum_block st p) = dos_type st"
  "root_block_num (checksum_block st p) = root_block_num st"
  "volume_name (checksum_block st p) = volume_name st"
  "is_ffs (checksum_block st p) = is_ffs st"
  "read_only (checksum_block st p) = read_only st"
  "dir_cache (checksum_block st p) = dir_cache st"
  "free_blocks (checksum_block st p) = free_blocks st"
  "used_blocks (checksum_block st p) = used_blocks st"
  by (simp_all add: checksum_block_def)

lemma blk_checksum_block [simp]:
  "blk (checksum_block st p) q = (if q = p then update_checksum (blk st p) 5 else blk st q)"
  by (simp add: checksum_block_def)

lemma is_valid_cong:
  "mapped st' = mapped st \<Longrightarrow> file_size st' = file_size st \<Longrightarrow> is_valid st' = is_valid st"
  by (simp add: is_valid_def)

lemma get_block_cong:
  "mapped st' = mapped st \<Longrightarrow> file_size st' = file_size st \<Longrightarrow> get_block st' = get_block st"
  by (rule ext) (simp add: get_block_def is_valid_def)

lemma get_block_writable_cong:
  "mapped st' = mapped st \<Longrightarrow> file_size st' = file_size st \<Longrightarrow> read_only st' = read_only st
   \<Longrightarrow> get_block_writable st' = get_block_writable st"
  by (rule ext) (simp add: get_block_writable_def is_valid_def)

lemma get_block_upd [simp]:
  "get_block (set_blk st p b) = get_block st"
  "get_block (wr32 st p off v) = get_block st"
  "get_block (checksum_block st p) = get_block st"
  by (rule get_block_cong; simp)+

lemma get_block_writable_upd [simp]:
  "get_block_writable (set_blk st p b) = get_block_writable st"
  "get_block_writable (wr32 st p off v) = get_block_writable st"
  "get_block_writable (checksum_block st p) = get_block_writable st"
  by (rule get_block_writable_cong; simp)+

lemma get_block_Some: "get_block st bn = Some p \<Longrightarrow> p = unat bn \<and> 512 * p + 512 \<le> file_size st"
  by (auto simp: get_block_def split: if_splits)


lemma rd32_simps [simp]:
  "rd32 (set_blk st p b) q off = (if q = p then be32 b off else rd32 st q off)"
  "rd32 (wr32 st p o' v) q off = (if q = p then be32 (put_be32 (blk st p) o' v) off else rd32 st q off)"
  by (simp_all add: rd32_def)

section \<open>Checksums\<close>

definition word_sum :: "block \<Rightarrow> u32" where
  "word_sum b = (\<Sum>i<128. be32 b (4 * i))"

lemma checksum_fold:
  "fold (\<lambda>i sum. if i \<noteq> k then sum + f i else sum) [0..<n] (a::u32)
     = a + (\<Sum>i<n. if i = k then 0 else f i)"
proof (induction n arbitrary: a)
  case 0
  show ?case by simp
next
  case (Suc n)
  have "fold (\<lambda>i sum. if i \<noteq> k then sum + f i else sum) [0..<Suc n] a
        = (if n \<noteq> k then fold (\<lambda>i sum. if i \<noteq> k then sum + f i else sum) [0..<n] a + f n
           else fold (\<lambda>i sum. if i \<noteq> k then sum + f i else sum) [0..<n] a)"
    by simp
  also have "\<dots> = (a + (\<Sum>i<n. if i = k then 0 else f i)) + (if n = k then 0 else f n)"
    unfolding Suc.IH by simp
  also have "\<dots> = a + (\<Sum>i<Suc n. if i = k then 0 else f i)"
    by (simp only: sum.lessThan_Suc add.assoc)
  finally show ?case .
qed

lemma calculate_checksum_sum:
  "calculate_checksum b k = - (\<Sum>i<128. if i = k then 0 else be32 b (4 * i))"
  unfolding calculate_checksum_def by (simp only: checksum_fold add_0)

lemma sum_split_word:
  assumes "k < (n::nat)"
  shows "(\<Sum>i<n. (f i :: u32)) = f k + (\<Sum>i<n. if i = k then 0 else f i)"
proof -
  have "(\<Sum>i<n. f i) = (\<Sum>i<n. (if i = k then f k else 0) + (if i = k then 0 else f i))"
    by (rule sum.cong) auto
  also have "\<dots> = (\<Sum>i<n. if i = k then f k else 0) + (\<Sum>i<n. if i = k then 0 else f i)"
    by (simp add: sum.distrib)
  also have "(\<Sum>i<n. if i = k then f k else 0) = f k"
    using assms by (simp add: sum.delta')
  finally show ?thesis .
qed

lemma be32_update_checksum_other:
  "i \<noteq> k \<Longrightarrow> be32 (update_checksum b k) (4 * i) = be32 b (4 * i)"
  unfolding update_checksum_def Let_def by simp

lemma be32_update_checksum_off:
  "off + 4 \<le> 4 * k \<or> 4 * k + 4 \<le> off \<Longrightarrow> be32 (update_checksum b k) off = be32 b off"
  unfolding update_checksum_def Let_def by auto

lemma update_checksum_outside:
  "a < 4 * k \<or> 4 * k + 4 \<le> a \<Longrightarrow> update_checksum b k a = b a"
  unfolding update_checksum_def Let_def by (auto simp: put_be32_outside)

lemma word_sum_update_checksum:
  assumes "k < 128"
  shows "word_sum (update_checksum b k) = 0"
proof -
  let ?b0 = "put_be32 b (4 * k) 0"
  let ?c = "calculate_checksum ?b0 k"
  have rest: "(\<Sum>i<128. if i = k then 0 else be32 (update_checksum b k) (4 * i))
              = (\<Sum>i<128. if i = k then 0 else be32 ?b0 (4 * i))"
    by (rule sum.cong) (auto simp: be32_update_checksum_other)
  have at: "be32 (update_checksum b k) (4 * k) = ?c"
    by (simp add: update_checksum_def Let_def)
  have "word_sum (update_checksum b k)
        = ?c + (\<Sum>i<128. if i = k then 0 else be32 ?b0 (4 * i))"
    unfolding word_sum_def by (subst sum_split_word [OF assms]) (simp only: at rest)
  then show ?thesis by (simp only: calculate_checksum_sum add.left_inverse)
qed

lemma calculate_checksum_ignores_slot:
  "calculate_checksum (put_be32 b (4 * k) v) k = calculate_checksum b k"
proof -
  have "(\<Sum>i<128. if i = k then 0 else be32 (put_be32 b (4 * k) v) (4 * i))
        = (\<Sum>i<128. if i = k then 0 else be32 b (4 * i))"
    by (rule sum.cong) auto
  then show ?thesis by (simp only: calculate_checksum_sum)
qed

lemma update_checksum_stored:
  "be32 (update_checksum b k) (4 * k) = calculate_checksum b k"
  by (simp add: update_checksum_def Let_def calculate_checksum_ignores_slot)

text \<open>
  Claim C2. \<open>calculate_checksum\<close> returns the two's-complement negation of the sum of
  the 128 big-endian words of the block, the word at the checksum offset counted as
  zero. \<open>update_checksum\<close> stores that value in the checksum word and leaves every
  other byte of the block as it was; afterwards the 128 words of the block sum to zero
  (modulo \<open>2^32\<close>, the arithmetic of \<open>32 word\<close>).
\<close>

theorem checksum_discipline:
  assumes "checksum_offset < 128"
  shows "calculate_checksum b checksum_offset
           = - (\<Sum>i<128. if i = checksum_offset then 0 else be32 b (4 * i))
         \<and> be32 (update_checksum b checksum_offset) (4 * checksum_offset)
             = calculate_checksum b checksum_offset
         \<and> (\<forall>a. a < 4 * checksum_offset \<or> 4 * checksum_offset + 4 \<le> a
                \<longrightarrow> update_checksum b checksum_offset a = b a)
         \<and> (\<Sum>i<128. be32 (update_checksum b checksum_offset) (4 * i)) = 0"
proof (intro conjI allI impI)
  show "calculate_checksum b checksum_offset
           = - (\<Sum>i<128. if i = checksum_offset then 0 else be32 b (4 * i))"
    by (rule calculate_checksum_sum)
  show "be32 (update_checksum b checksum_offset) (4 * checksum_offset)
             = calculate_checksum b checksum_offset"
    by (rule update_checksum_stored)
  show "update_checksum b checksum_offset a = b a"
    if "a < 4 * checksum_offset \<or> 4 * checksum_offset + 4 \<le> a" for a
    using that by (rule update_checksum_outside)
  show "(\<Sum>i<128. be32 (update_checksum b checksum_offset) (4 * i)) = 0"
    using word_sum_update_checksum [OF assms] unfolding word_sum_def .
qed

definition sample_block :: block where
  "sample_block = (\<lambda>_. 0)(3 := 2, 23 := 9, 511 := 1)"

lemma sample_block_sum:
  "(\<Sum>i<128. if i = 5 then 0 else be32 sample_block (4 * i)) = (3 :: u32)"
proof -
  have w: "be32 sample_block (4 * i) = (if i = 0 then 2 else if i = 5 then 9 else if i = 127 then 1 else 0)"
    for i
    by (auto simp: be32_def sample_block_def)
  have "(\<Sum>i<128. if i = 5 then 0 else be32 sample_block (4 * i))
        = (\<Sum>i<(128::nat). (if i = 0 then 2 else 0) + (if i = 127 then 1 else (0 :: u32)))"
    by (rule sum.cong) (auto simp: w)
  also have "\<dots> = 3"
    by (simp only: sum.distrib sum.delta' finite_lessThan) simp
  finally show ?thesis .
qed

theorem checksum_discipline_witness:
  "(5::nat) < 128
   \<and> calculate_checksum sample_block 5 = - 3
   \<and> be32 (update_checksum sample_block 5) 20 = - 3
   \<and> update_checksum sample_block 5 3 = 2
   \<and> update_checksum sample_block 5 511 = 1
   \<and> (\<Sum>i<128. be32 (update_checksum sample_block 5) (4 * i)) = 0"
proof -
  have h: "(5::nat) < 128" by simp
  note t = checksum_discipline [OF h, of sample_block]
  from t have c: "calculate_checksum sample_block 5 = - 3"
    by (simp only: sample_block_sum)
  from t c have s: "be32 (update_checksum sample_block 5) 20 = - 3" by simp
  from t have "update_checksum sample_block 5 3 = sample_block 3"
    "update_checksum sample_block 5 511 = sample_block 511" by simp_all
  then have f: "update_checksum sample_block 5 3 = 2" "update_checksum sample_block 5 511 = 1"
    by (simp_all add: sample_block_def)
  from t have z: "(\<Sum>i<128. be32 (update_checksum sample_block 5) (4 * i)) = 0" by blast
  from h c s f z show ?thesis by blast
qed


section \<open>Bounds-checked block access\<close>






section \<open>Volume open\<close>

text \<open>\<open>sets_only st st'\<close>: \<open>st'\<close> differs from \<open>st\<close> in the two block sets at most.\<close>

definition sets_only :: "AdfImage \<Rightarrow> AdfImage \<Rightarrow> bool" where
  "sets_only st st' \<longleftrightarrow>
     mapped st' = mapped st \<and> mapped_data st' = mapped_data st \<and> file_size st' = file_size st
     \<and> dos_type st' = dos_type st \<and> root_block_num st' = root_block_num st
     \<and> volume_name st' = volume_name st \<and> is_ffs st' = is_ffs st
     \<and> read_only st' = read_only st \<and> dir_cache st' = dir_cache st"

text \<open>The partition of the block numbers below \<open>total_blocks\<close>, without the root.\<close>

definition part_inv :: "AdfImage \<Rightarrow> bool" where
  "part_inv st \<longleftrightarrow>
     free_blocks st \<inter> used_blocks st = {}
     \<and> {b. unat b < file_size st div BLOCK_SIZE} \<subseteq> free_blocks st \<union> used_blocks st
     \<and> free_blocks st \<subseteq> {b. unat b < file_size st div BLOCK_SIZE}
     \<and> 0 \<in> used_blocks st \<and> 1 \<in> used_blocks st"

text \<open>What every step of the scan guarantees.\<close>

definition scan_step :: "AdfImage \<Rightarrow> AdfImage \<Rightarrow> bool" where
  "scan_step st st' \<longleftrightarrow>
     sets_only st st' \<and> used_blocks st \<subseteq> used_blocks st' \<and> (part_inv st \<longrightarrow> part_inv st')"

lemma scan_step_refl [simp]: "scan_step st st"
  by (simp add: scan_step_def sets_only_def)

lemma scan_step_trans: "scan_step a b \<Longrightarrow> scan_step b c \<Longrightarrow> scan_step a c"
  unfolding scan_step_def sets_only_def by auto

lemma scan_step_mark_used [simp]: "scan_step st (mark_used st b)"
  unfolding scan_step_def sets_only_def part_inv_def mark_used_def by auto

lemma scan_step_mark_used_trans: "scan_step a b \<Longrightarrow> scan_step a (mark_used b x)"
  by (rule scan_step_trans [OF _ scan_step_mark_used])

lemma bitmap_bits_step: "scan_step st (bitmap_bits tb base w bits st)"
proof (induction bits arbitrary: st)
  case Nil
  show ?case by simp
next
  case (Cons i rest)
  show ?case
    using Cons.IH [of st] Cons.IH [of "mark_used st (base + of_nat i)"]
    by (auto simp: Let_def intro: scan_step_trans [OF scan_step_mark_used])
qed

lemma bitmap_words_step: "scan_step st (bitmap_words tb base bitmap js st)"
proof (induction js arbitrary: st)
  case Nil
  show ?case by simp
next
  case (Cons j rest)
  show ?case
    by (simp only: bitmap_words.simps) (rule scan_step_trans [OF bitmap_bits_step Cons.IH])
qed

lemma bitmap_pages_step: "scan_step st (bitmap_pages tb root pages st)"
proof (induction pages arbitrary: st)
  case Nil
  show ?case by simp
next
  case (Cons i rest)
  let ?bm = "rd32 st root (o_bm_pages + 4 * i)"
  show ?case
  proof (cases "?bm = 0")
    case True
    then show ?thesis by simp
  next
    case False
    show ?thesis
    proof (cases "get_block (mark_used st ?bm) ?bm")
      case None
      with False show ?thesis
        using scan_step_trans [OF scan_step_mark_used Cons.IH] by (simp add: Let_def)
    next
      case (Some bitmap)
      with False show ?thesis
        using scan_step_trans [OF scan_step_mark_used
                scan_step_trans [OF bitmap_words_step Cons.IH]]
        by (simp add: Let_def)
    qed
  qed
qed

lemma scan_data_chain_step: "scan_data_chain fuel st d = Some st' \<Longrightarrow> scan_step st st'"
proof (induction fuel arbitrary: st d)
  case 0
  then show ?case by simp
next
  case (Suc fuel)
  show ?case
  proof (cases "d = 0")
    case True
    with Suc.prems show ?thesis by simp
  next
    case False
    show ?thesis
    proof (cases "get_block (mark_used st d) d")
      case None
      with False Suc.prems show ?thesis by (auto simp: Let_def)
    next
      case (Some p)
      with False Suc.prems
      have "scan_data_chain fuel (mark_used st d) (rd32 (mark_used st d) p o_next_data) = Some st'"
        by (simp add: Let_def)
      from scan_step_trans [OF scan_step_mark_used Suc.IH [OF this]] show ?thesis .
    qed
  qed
qed

lemma scan_hash_slots_step_aux:
  assumes ih: "\<And>st b st'. scan_used_blocks fuel st b = Some st' \<Longrightarrow> scan_step st st'"
  shows "scan_hash_slots fuel st dir slots = Some st' \<Longrightarrow> scan_step st st'"
proof (induction slots arbitrary: st)
  case Nil
  then show ?case by simp
next
  case (Cons i rest)
  show ?case
  proof (cases "rd32 st dir (o_table + 4 * i) = 0")
    case True
    with Cons show ?thesis by simp
  next
    case False
    with Cons.prems obtain st1 where
      a: "scan_used_blocks fuel st (rd32 st dir (o_table + 4 * i)) = Some st1"
      and b: "scan_hash_slots fuel st1 dir rest = Some st'"
      by (auto simp: bind_eq_Some_conv)
    from scan_step_trans [OF ih [OF a] Cons.IH [OF b]] show ?thesis .
  qed
qed

lemma scan_used_blocks_step: "scan_used_blocks fuel st b = Some st' \<Longrightarrow> scan_step st st'"
proof (induction fuel arbitrary: st b st')
  case 0
  then show ?case by simp
next
  case (Suc fuel)
  have slots: "scan_step s s'" if "scan_hash_slots fuel s dir slots = Some s'" for s s' dir slots
    using scan_hash_slots_step_aux [OF Suc.IH that] .
  show ?case
  proof (cases "b = 0 \<or> b \<in> used_blocks st")
    case True
    with Suc.prems show ?thesis by auto
  next
    case False
    let ?m = "mark_used st b"
    show ?thesis
    proof (cases "get_block ?m b")
      case None
      with False Suc.prems show ?thesis by auto
    next
      case (Some block)
      with False Suc.prems obtain st2 st3 where
        s2: "(if is_dir_sec_type (rd32 st block o_sec_type) then
               (if b = root_block_num st then
                  (case get_block ?m b of
                     None \<Rightarrow> Some ?m
                   | Some root \<Rightarrow> scan_hash_slots fuel ?m root hash_slots)
                else scan_hash_slots fuel ?m block hash_slots)
              else Some ?m) = Some st2"
        and s3: "(if rd32 st block o_sec_type = ST_FILE
                  then scan_data_chain fuel st2 (rd32 st2 block o_first_data)
                  else Some st2) = Some st3"
        and s4: "(if rd32 st3 block o_hash_chain \<noteq> 0
                  then scan_used_blocks fuel st3 (rd32 st3 block o_hash_chain)
                  else Some st3) = Some st'"
        by (auto simp: bind_eq_Some_conv)
      from s2 have "scan_step ?m st2" by (auto split: if_splits option.splits intro: slots)
      moreover from s3 have "scan_step st2 st3"
        by (auto split: if_splits dest: scan_data_chain_step)
      moreover from s4 have "scan_step st3 st'" by (auto split: if_splits dest: Suc.IH)
      ultimately show ?thesis
        by (blast intro: scan_step_trans scan_step_mark_used)
    qed
  qed
qed

lemma scan_hash_slots_step: "scan_hash_slots fuel st dir slots = Some st' \<Longrightarrow> scan_step st st'"
  by (rule scan_hash_slots_step_aux [OF scan_used_blocks_step])

lemma sets_only_get_block: "sets_only st st' \<Longrightarrow> get_block st' = get_block st"
  by (rule get_block_cong) (simp_all add: sets_only_def)

lemma sets_only_rd32: "sets_only st st' \<Longrightarrow> rd32 st' = rd32 st"
  by (intro ext) (simp add: rd32_def blk_def sets_only_def)

lemma small_word_cases: "unat (b :: u32) < 2 \<Longrightarrow> b = 0 \<or> b = 1"
proof -
  assume "unat b < 2"
  then have "unat b = 0 \<or> unat b = 1" by linarith
  then show ?thesis by (auto simp: word_unat_eq_iff)
qed

lemma part_inv_initial:
  assumes "file_size st div BLOCK_SIZE < 2 ^ 32"
  shows "part_inv (mark_used (mark_used
           (st\<lparr>free_blocks := {2..<of_nat (file_size st div BLOCK_SIZE)}, used_blocks := {}\<rparr>) 0) 1)"
proof -
  let ?n = "file_size st div BLOCK_SIZE"
  have u: "unat (of_nat ?n :: u32) = ?n"
    using assms by (simp add: unat_of_nat)
  have lt: "b < (of_nat ?n :: u32) \<longleftrightarrow> unat b < ?n" for b
    by (simp add: word_less_nat_alt u)
  have ge: "2 \<le> b" if "b \<noteq> 0" "b \<noteq> 1" for b :: u32
    using small_word_cases [of b] that by (cases "unat b < 2") (auto simp: word_le_nat_alt)
  show ?thesis
    unfolding part_inv_def mark_used_def by (auto simp: lt intro: ge)
qed

lemma parse_bitmap_start:
  fixes st :: AdfImage
  defines "st2 \<equiv> mark_used (mark_used
             (st\<lparr>free_blocks := {2..<of_nat (file_size st div BLOCK_SIZE)}, used_blocks := {}\<rparr>) 0) 1"
  shows "parse_bitmap fuel st =
           (case get_block st (root_block_num st) of
              None \<Rightarrow> Some st2
            | Some root \<Rightarrow>
                scan_hash_slots fuel
                  (mark_used (bitmap_pages (of_nat (file_size st div BLOCK_SIZE)) root [0..<25] st2)
                     (root_block_num st))
                  root hash_slots)"
proof -
  have so2: "sets_only st st2" by (simp add: sets_only_def mark_used_def st2_def)
  have g2: "get_block st2 = get_block st" "root_block_num st2 = root_block_num st"
    using so2 sets_only_get_block [OF so2] by (simp_all add: sets_only_def)
  have so3: "sets_only st (bitmap_pages tb root pages st2)" for tb root pages
    using so2 bitmap_pages_step [of st2 tb root pages]
    by (simp add: scan_step_def sets_only_def)
  have g3: "root_block_num (bitmap_pages tb root pages st2) = root_block_num st" for tb root pages
    using so3 [of tb root pages] by (simp add: sets_only_def)
  have so4: "sets_only st (mark_used (bitmap_pages tb root pages st2) x)" for tb root pages x
    using so3 [of tb root pages] by (simp add: sets_only_def mark_used_def)
  have g4: "get_block (mark_used (bitmap_pages tb root pages st2) x) = get_block st"
      "root_block_num (mark_used (bitmap_pages tb root pages st2) x) = root_block_num st"
    for tb root pages x
    using so4 [of tb root pages x] sets_only_get_block [OF so4 [of tb root pages x]]
    by (simp_all add: sets_only_def)
  show "parse_bitmap fuel st =
           (case get_block st (root_block_num st) of
              None \<Rightarrow> Some st2
            | Some root \<Rightarrow>
                scan_hash_slots fuel
                  (mark_used (bitmap_pages (of_nat (file_size st div BLOCK_SIZE)) root [0..<25] st2)
                     (root_block_num st))
                  root hash_slots)"
    unfolding parse_bitmap_def Let_def st2_def [symmetric]
    by (cases "get_block st (root_block_num st)") (simp_all only: g2 g3 g4 option.case)
qed

lemma parse_bitmap_sets_only: "parse_bitmap fuel st = Some st' \<Longrightarrow> sets_only st st'"
proof -
  assume res: "parse_bitmap fuel st = Some st'"
  define st2 where "st2 = mark_used (mark_used
             (st\<lparr>free_blocks := {2..<of_nat (file_size st div BLOCK_SIZE)}, used_blocks := {}\<rparr>) 0) 1"
  note start = parse_bitmap_start [of fuel st, folded st2_def]
  have so2: "sets_only st st2" by (simp add: sets_only_def mark_used_def st2_def)
  show ?thesis
  proof (cases "get_block st (root_block_num st)")
    case None
    with res start so2 show ?thesis by simp
  next
    case (Some r)
    define st3 where "st3 = bitmap_pages (of_nat (file_size st div BLOCK_SIZE)) r [0..<25] st2"
    have "scan_hash_slots fuel (mark_used st3 (root_block_num st)) r hash_slots = Some st'"
      using res start Some unfolding st3_def by simp
    then have "scan_step (mark_used st3 (root_block_num st)) st'"
      by (rule scan_hash_slots_step)
    moreover have "scan_step st2 st3" unfolding st3_def by (rule bitmap_pages_step)
    ultimately show ?thesis
      using so2 by (simp add: scan_step_def sets_only_def mark_used_def)
  qed
qed

lemma parse_bitmap_result:
  assumes small: "file_size st div BLOCK_SIZE < 2 ^ 32"
    and res: "parse_bitmap fuel st = Some st'"
    and root: "get_block st (root_block_num st) = Some r"
  shows "part_inv st' \<and> root_block_num st \<in> used_blocks st'"
proof -
  define st2 where "st2 = mark_used (mark_used
             (st\<lparr>free_blocks := {2..<of_nat (file_size st div BLOCK_SIZE)}, used_blocks := {}\<rparr>) 0) 1"
  note start = parse_bitmap_start [of fuel st, folded st2_def]
  define st3 where "st3 = bitmap_pages (of_nat (file_size st div BLOCK_SIZE)) r [0..<25] st2"
  define st4 where "st4 = mark_used st3 (root_block_num st)"
  have p2: "part_inv st2" unfolding st2_def by (rule part_inv_initial [OF small])
  have s23: "scan_step st2 st3" unfolding st3_def by (rule bitmap_pages_step)
  have s34: "scan_step st3 st4" unfolding st4_def by simp
  have "scan_hash_slots fuel st4 r hash_slots = Some st'"
    using res start root unfolding st4_def st3_def by simp
  then have s45: "scan_step st4 st'" by (rule scan_hash_slots_step)
  have "root_block_num st \<in> used_blocks st4" by (simp add: st4_def mark_used_def)
  with s45 have "root_block_num st \<in> used_blocks st'" by (auto simp: scan_step_def)
  moreover have "part_inv st'"
    using p2 s23 s34 s45 by (simp add: scan_step_def)
  ultimately show ?thesis by simp
qed

text \<open>The checks \<open>parse_filesystem\<close> makes on the root block.\<close>

definition root_ok :: "AdfImage \<Rightarrow> bool" where
  "root_ok st \<longleftrightarrow>
     get_block st 880 \<noteq> None \<and> rd32 st 880 o_type = T_HEADER
     \<and> (rd32 st 880 o_sec_type = ST_ROOT \<or> rd32 st 880 o_sec_type = 0)"

lemma parse_filesystem_result:
  assumes valid: "is_valid st"
    and res: "parse_filesystem fuel st = Some (ok, st')"
  shows "dos_type st' = rd32 st 0 o_disk_type
    \<and> is_ffs st' = (rd32 st 0 o_disk_type = DOS_FFS \<or> rd32 st 0 o_disk_type = DOS_FFS_INTL
                       \<or> rd32 st 0 o_disk_type = DOS_FFS_DC)
    \<and> root_block_num st' = 880
    \<and> ok = root_ok st
    \<and> (ok \<longrightarrow> file_size st div BLOCK_SIZE < 2 ^ 32
         \<longrightarrow> part_inv st' \<and> 880 \<in> used_blocks st' \<and> file_size st' = file_size st)"
proof -
  let ?d = "rd32 st 0 o_disk_type"
  let ?st3 = "st\<lparr>dos_type := ?d, root_block_num := 880,
                 is_ffs := (?d = DOS_FFS \<or> ?d = DOS_FFS_INTL \<or> ?d = DOS_FFS_DC)\<rparr>"
  let ?st4 = "?st3\<lparr>volume_name := bcpl_read (blk ?st3 880) o_name\<rparr>"
  have boot: "get_block st 0 = Some 0"
    using valid by (simp add: get_block_def is_valid_def)
  have g3: "get_block ?st3 = get_block st" "get_block ?st4 = get_block st"
    by (rule get_block_cong; simp)+
  have r3: "rd32 ?st3 = rd32 st"
    by (intro ext) (simp add: rd32_def blk_def)
  show ?thesis
  proof (cases "get_block st 880")
    case None
    then have "parse_filesystem fuel st = Some (False, ?st3)"
      unfolding parse_filesystem_def Let_def by (simp add: boot g3)
    with res None show ?thesis by (auto simp: root_ok_def)
  next
    case (Some root)
    then have root: "root = 880" by (auto dest: get_block_Some)
    show ?thesis
    proof (cases "rd32 st 880 o_type = T_HEADER
                  \<and> (rd32 st 880 o_sec_type = ST_ROOT \<or> rd32 st 880 o_sec_type = 0)")
      case False
      then have "parse_filesystem fuel st = Some (False, ?st3)"
        unfolding parse_filesystem_def Let_def using Some root
        by (auto simp: boot g3 r3)
      with res False show ?thesis by (auto simp: root_ok_def)
    next
      case True
      then have "parse_filesystem fuel st =
                   (case parse_bitmap fuel ?st4 of None \<Rightarrow> None | Some st5 \<Rightarrow> Some (True, st5))"
        unfolding parse_filesystem_def Let_def using Some root
        by (auto simp: boot g3 r3)
      with res have ok: "ok" and pb: "parse_bitmap fuel ?st4 = Some st'"
        by (auto split: option.splits)
      have root4: "get_block ?st4 (root_block_num ?st4) = Some root"
        using Some by (simp add: g3)
      have r4: "root_block_num ?st4 = 880" "file_size ?st4 = file_size st" by simp_all
      have inv: "part_inv st' \<and> 880 \<in> used_blocks st'"
        if "file_size st div BLOCK_SIZE < 2 ^ 32"
        using parse_bitmap_result [OF _ pb root4] that unfolding r4 by blast
      have so: "sets_only ?st4 st'" using pb by (rule parse_bitmap_sets_only)
      have f: "dos_type st' = ?d" "root_block_num st' = 880" "file_size st' = file_size st"
        "is_ffs st' = (?d = DOS_FFS \<or> ?d = DOS_FFS_INTL \<or> ?d = DOS_FFS_DC)"
        using so unfolding sets_only_def by simp_all
      have rk: "root_ok st" using True Some by (simp add: root_ok_def)
      from f ok rk inv show ?thesis by blast
    qed
  qed
qed

lemma scan_hash_slots_empty:
  "(\<And>i. i \<in> set slots \<Longrightarrow> rd32 st dir (o_table + 4 * i) = 0)
   \<Longrightarrow> scan_hash_slots fuel st dir slots = Some st"
  by (induction slots) simp_all

text \<open>With an empty root hash table the scan needs no fuel: \<open>parse_filesystem\<close> returns.\<close>

lemma parse_filesystem_returns:
  assumes valid: "is_valid st"
    and empty: "\<And>i. i < HASH_TABLE_SIZE \<Longrightarrow> rd32 st 880 (o_table + 4 * i) = 0"
  shows "\<exists>st'. parse_filesystem fuel st = Some (root_ok st, st')"
proof -
  let ?d = "rd32 st 0 o_disk_type"
  let ?st3 = "st\<lparr>dos_type := ?d, root_block_num := 880,
                 is_ffs := (?d = DOS_FFS \<or> ?d = DOS_FFS_INTL \<or> ?d = DOS_FFS_DC)\<rparr>"
  let ?st4 = "?st3\<lparr>volume_name := bcpl_read (blk ?st3 880) o_name\<rparr>"
  have boot: "get_block st 0 = Some 0"
    using valid by (simp add: get_block_def is_valid_def)
  have g3: "get_block ?st3 = get_block st" "get_block ?st4 = get_block st"
    by (rule get_block_cong; simp)+
  have r3: "rd32 ?st3 = rd32 st"
    by (intro ext) (simp add: rd32_def blk_def)
  show ?thesis
  proof (cases "get_block st 880")
    case None
    then have "parse_filesystem fuel st = Some (False, ?st3)"
      unfolding parse_filesystem_def Let_def by (simp add: boot g3)
    with None show ?thesis by (simp add: root_ok_def)
  next
    case (Some root)
    then have root: "root = 880" by (auto dest: get_block_Some)
    show ?thesis
    proof (cases "rd32 st 880 o_type = T_HEADER
                  \<and> (rd32 st 880 o_sec_type = ST_ROOT \<or> rd32 st 880 o_sec_type = 0)")
      case False
      then have "parse_filesystem fuel st = Some (False, ?st3)"
        unfolding parse_filesystem_def Let_def using Some root
        by (auto simp: boot g3 r3)
      with False show ?thesis by (auto simp: root_ok_def)
    next
      case True
      then have pf: "parse_filesystem fuel st =
                   (case parse_bitmap fuel ?st4 of None \<Rightarrow> None | Some st5 \<Rightarrow> Some (True, st5))"
        unfolding parse_filesystem_def Let_def using Some root
        by (auto simp: boot g3 r3)
      define st2 where "st2 = mark_used (mark_used
             (?st4\<lparr>free_blocks := {2..<of_nat (file_size ?st4 div BLOCK_SIZE)}, used_blocks := {}\<rparr>) 0) 1"
      define st5 where "st5 = mark_used
            (bitmap_pages (of_nat (file_size ?st4 div BLOCK_SIZE)) 880 [0..<25] st2)
            (root_block_num ?st4)"
      have "sets_only ?st4 st2" by (simp add: st2_def sets_only_def mark_used_def)
      moreover have "scan_step st2 st5"
        unfolding st5_def by (rule scan_step_mark_used_trans [OF bitmap_pages_step])
      ultimately have "rd32 st5 = rd32 st"
        by (intro ext) (simp add: rd32_def blk_def scan_step_def sets_only_def)
      then have "scan_hash_slots fuel st5 880 hash_slots = Some st5"
        by (intro scan_hash_slots_empty) (simp add: empty hash_slots_def)
      moreover have "get_block ?st4 (root_block_num ?st4) = Some 880"
        using Some root by (simp add: g3)
      ultimately have "parse_bitmap fuel ?st4 = Some st5"
        unfolding parse_bitmap_start st5_def st2_def by simp
      with pf True Some show ?thesis by (simp add: root_ok_def)
    qed
  qed
qed


subsection \<open>Sample volumes\<close>

definition volume_of :: "block \<Rightarrow> block \<Rightarrow> AdfImage" where
  "volume_of boot root =
     \<lparr>mapped = True, mapped_data = (\<lambda>_ _. 0)(0 := boot, 880 := root), file_size = 901120,
      dos_type = 0, root_block_num = 0, volume_name = [], is_ffs = False, read_only = False,
      dir_cache = Map.empty, free_blocks = {}, used_blocks = {}\<rparr>"

definition boot_of :: "u8 \<Rightarrow> u8 \<Rightarrow> u8 \<Rightarrow> u8 \<Rightarrow> block" where
  "boot_of a b c d = (\<lambda>_. 0)(0 := a, 1 := b, 2 := c, 3 := d)"

text \<open>A root block with \<open>type = 2\<close>, \<open>sec_type = 1\<close>, an empty hash table and the first
  bitmap page pointer \<open>256 * hi + lo\<close>.\<close>

definition root_of :: "u8 \<Rightarrow> u8 \<Rightarrow> block" where
  "root_of hi lo = (\<lambda>_. 0)(3 := 2, 318 := hi, 319 := lo, 511 := 1)"

lemma volume_of_simps [simp]:
  "is_valid (volume_of boot root)"
  "file_size (volume_of boot root) = 901120"
  "get_block (volume_of boot root) 880 = Some 880"
  "rd32 (volume_of boot root) 0 off = be32 boot off"
  "rd32 (volume_of boot root) 880 off = be32 root off"
  by (simp_all add: volume_of_def is_valid_def get_block_def rd32_def blk_def)

lemma boot_of_type: "be32 (boot_of a b c d) 0
    = push_bit 24 (ucast a) OR push_bit 16 (ucast b) OR push_bit 8 (ucast c) OR ucast d"
  by (simp add: be32_def boot_of_def)

lemma root_of_simps [simp]:
  "be32 (root_of hi lo) 0 = 2"
  "be32 (root_of hi lo) 508 = 1"
  "be32 (root_of hi lo) 316 = push_bit 8 (ucast hi) OR ucast lo"
  "i < 72 \<Longrightarrow> be32 (root_of hi lo) (24 + 4 * i) = 0"
  by (simp_all add: be32_def root_of_def)

lemma root_ok_volume [simp]: "root_ok (volume_of boot (root_of hi lo))"
  by (simp add: root_ok_def)

lemma volume_parses:
  "\<exists>st'. parse_filesystem fuel (volume_of boot (root_of hi lo)) = Some (True, st')"
  using parse_filesystem_returns [of "volume_of boot (root_of hi lo)" fuel] by simp

section \<open>Volume open returns\<close>

text \<open>The data chain that starts at \<open>d\<close> ends within \<open>n\<close> turns of the loop of
  \<open>scan_used_blocks\<close>: it reaches 0 or a block outside the image.\<close>

fun chain_ends_within :: "AdfImage \<Rightarrow> u32 \<Rightarrow> nat \<Rightarrow> bool" where
  "chain_ends_within st d 0 = (d = 0)"
| "chain_ends_within st d (Suc n) =
     (d = 0 \<or> (case get_block st d of
                  None \<Rightarrow> True
                | Some p \<Rightarrow> chain_ends_within st (rd32 st p o_next_data) n))"

text \<open>Every block of the image that carries the secondary type of a file header has a
  data chain that ends.\<close>

definition file_chains_end :: "AdfImage \<Rightarrow> bool" where
  "file_chains_end st \<longleftrightarrow>
     (\<forall>b p. get_block st b = Some p \<longrightarrow> rd32 st p o_sec_type = ST_FILE
            \<longrightarrow> (\<exists>n. chain_ends_within st (rd32 st p o_first_data) n))"

lemma mark_used_sets_only [simp]: "sets_only st (mark_used st b)"
  by (simp add: sets_only_def mark_used_def)

lemma get_block_mark_used [simp]: "get_block (mark_used st b) = get_block st"
  by (rule sets_only_get_block) simp

lemma rd32_mark_used [simp]: "rd32 (mark_used st b) = rd32 st"
  by (rule sets_only_rd32) simp

lemma chain_ends_within_reads:
  assumes g: "get_block st' = get_block st" and r: "rd32 st' = rd32 st"
  shows "chain_ends_within st' d n = chain_ends_within st d n"
  by (induction n arbitrary: d) (simp_all add: g r cong: option.case_cong)

lemma chain_ends_within_cong:
  assumes "sets_only st st'"
  shows "chain_ends_within st' d n = chain_ends_within st d n"
  using assms by (intro chain_ends_within_reads sets_only_get_block sets_only_rd32)

lemma file_chains_end_reads:
  assumes g: "get_block st' = get_block st" and r: "rd32 st' = rd32 st"
  shows "file_chains_end st' = file_chains_end st"
proof -
  have c: "chain_ends_within st' = chain_ends_within st"
    by (intro ext) (rule chain_ends_within_reads [OF g r])
  show ?thesis
    unfolding file_chains_end_def g r c ..
qed

lemma scan_data_chain_returns:
  "chain_ends_within st d n \<Longrightarrow> \<exists>st'. scan_data_chain (Suc n) st d = Some st'"
proof (induction n arbitrary: st d)
  case 0
  then show ?case by simp
next
  case (Suc n)
  show ?case
  proof (cases "d = 0")
    case True
    then show ?thesis by simp
  next
    case False
    show ?thesis
    proof (cases "get_block st d")
      case None
      with False show ?thesis by (simp add: Let_def)
    next
      case (Some p)
      with False Suc.prems have "chain_ends_within st (rd32 st p o_next_data) n" by simp
      then have "chain_ends_within (mark_used st d) (rd32 st p o_next_data) n"
        by (simp add: chain_ends_within_cong [of st])
      from Suc.IH [OF this] False Some show ?thesis by (simp add: Let_def)
    qed
  qed
qed

text \<open>More fuel never changes a result.\<close>

lemma scan_data_chain_fuel:
  "scan_data_chain fuel st d = Some st' \<Longrightarrow> scan_data_chain (fuel + k) st d = Some st'"
proof (induction fuel arbitrary: st d)
  case 0
  then show ?case by simp
next
  case (Suc fuel)
  show ?case
  proof (cases "d = 0")
    case True
    with Suc.prems show ?thesis by simp
  next
    case False
    show ?thesis
    proof (cases "get_block st d")
      case None
      with False Suc.prems have "st' = mark_used st d" by (simp add: Let_def)
      with False None show ?thesis by (simp add: Let_def)
    next
      case (Some p)
      with False Suc.prems
      have "scan_data_chain fuel (mark_used st d) (rd32 st p o_next_data) = Some st'"
        by (simp add: Let_def)
      from Suc.IH [OF this] False Some show ?thesis by (simp add: Let_def)
    qed
  qed
qed

lemma scan_hash_slots_fuel_aux:
  assumes ih: "\<And>st b st'. scan_used_blocks fuel st b = Some st'
                 \<Longrightarrow> scan_used_blocks (fuel + k) st b = Some st'"
  shows "scan_hash_slots fuel st dir slots = Some st'
         \<Longrightarrow> scan_hash_slots (fuel + k) st dir slots = Some st'"
proof (induction slots arbitrary: st)
  case Nil
  then show ?case by simp
next
  case (Cons i rest)
  show ?case
  proof (cases "rd32 st dir (o_table + 4 * i) = 0")
    case True
    with Cons show ?thesis by simp
  next
    case False
    with Cons.prems obtain st1 where
      a: "scan_used_blocks fuel st (rd32 st dir (o_table + 4 * i)) = Some st1"
      and b: "scan_hash_slots fuel st1 dir rest = Some st'"
      by (auto simp: bind_eq_Some_conv)
    from ih [OF a] Cons.IH [OF b] False show ?thesis by simp
  qed
qed

text \<open>The three parts of one call of \<open>scan_used_blocks\<close> on a readable block.\<close>

definition scan_dirs :: "nat \<Rightarrow> AdfImage \<Rightarrow> u32 \<Rightarrow> nat \<Rightarrow> AdfImage option" where
  "scan_dirs fuel st b block =
     (if is_dir_sec_type (rd32 st block o_sec_type) then
        (if b = root_block_num st then
           (case get_block (mark_used st b) b of
              None \<Rightarrow> Some (mark_used st b)
            | Some root \<Rightarrow> scan_hash_slots fuel (mark_used st b) root hash_slots)
         else scan_hash_slots fuel (mark_used st b) block hash_slots)
      else Some (mark_used st b))"

definition scan_file :: "nat \<Rightarrow> AdfImage \<Rightarrow> nat \<Rightarrow> AdfImage \<Rightarrow> AdfImage option" where
  "scan_file fuel st block st2 =
     (if rd32 st block o_sec_type = ST_FILE
      then scan_data_chain fuel st2 (rd32 st2 block o_first_data)
      else Some st2)"

definition scan_next :: "nat \<Rightarrow> nat \<Rightarrow> AdfImage \<Rightarrow> AdfImage option" where
  "scan_next fuel block st3 =
     (if rd32 st3 block o_hash_chain \<noteq> 0
      then scan_used_blocks fuel st3 (rd32 st3 block o_hash_chain)
      else Some st3)"

lemma scan_used_blocks_Suc:
  "scan_used_blocks (Suc fuel) st b =
     (if b = 0 \<or> b \<in> used_blocks st then Some st
      else (case get_block st b of
              None \<Rightarrow> Some (mark_used st b)
            | Some block \<Rightarrow>
                Option.bind (scan_dirs fuel st b block)
                  (\<lambda>st2. Option.bind (scan_file fuel st block st2) (scan_next fuel block))))"
  unfolding scan_dirs_def scan_file_def scan_next_def [abs_def]
  by (simp cong: option.case_cong)

lemma scan_used_blocks_fuel:
  "scan_used_blocks fuel st b = Some st' \<Longrightarrow> scan_used_blocks (fuel + k) st b = Some st'"
proof (induction fuel arbitrary: st b st')
  case 0
  then show ?case by simp
next
  case (Suc fuel)
  have slots: "scan_hash_slots (fuel + k) s dir sl = Some s'"
    if "scan_hash_slots fuel s dir sl = Some s'" for s s' dir sl
    using scan_hash_slots_fuel_aux [OF Suc.IH that] .
  show ?case
  proof (cases "b = 0 \<or> b \<in> used_blocks st")
    case True
    with Suc.prems show ?thesis by auto
  next
    case False
    show ?thesis
    proof (cases "get_block st b")
      case None
      with False Suc.prems show ?thesis by auto
    next
      case (Some block)
      from Suc.prems False Some obtain st2 st3 where
        s2: "scan_dirs fuel st b block = Some st2"
        and s3: "scan_file fuel st block st2 = Some st3"
        and s4: "scan_next fuel block st3 = Some st'"
        unfolding scan_used_blocks_Suc by (auto simp: bind_eq_Some_conv)
      from s2 have "scan_dirs (fuel + k) st b block = Some st2"
        unfolding scan_dirs_def by (auto split: if_splits option.splits intro: slots)
      moreover from s3 have "scan_file (fuel + k) st block st2 = Some st3"
        unfolding scan_file_def by (auto split: if_splits intro: scan_data_chain_fuel)
      moreover from s4 have "scan_next (fuel + k) block st3 = Some st'"
        unfolding scan_next_def by (auto split: if_splits intro: Suc.IH)
      ultimately have "scan_used_blocks (Suc (fuel + k)) st b = Some st'"
        unfolding scan_used_blocks_Suc using False Some by simp
      then show ?thesis by simp
    qed
  qed
qed

lemma scan_hash_slots_fuel:
  "scan_hash_slots fuel st dir slots = Some st'
   \<Longrightarrow> scan_hash_slots (fuel + k) st dir slots = Some st'"
  by (rule scan_hash_slots_fuel_aux [OF scan_used_blocks_fuel])

lemma scan_dirs_readable:
  "get_block st b = Some block \<Longrightarrow>
   scan_dirs fuel st b block =
     (if is_dir_sec_type (rd32 st block o_sec_type)
      then scan_hash_slots fuel (mark_used st b) block hash_slots
      else Some (mark_used st b))"
  by (auto simp: scan_dirs_def)

lemma scan_dirs_fuel:
  "scan_dirs fuel st b block = Some st2 \<Longrightarrow> scan_dirs (fuel + k) st b block = Some st2"
  unfolding scan_dirs_def by (auto split: if_splits option.splits intro: scan_hash_slots_fuel)

lemma scan_file_fuel:
  "scan_file fuel st block st2 = Some st3 \<Longrightarrow> scan_file (fuel + k) st block st2 = Some st3"
  unfolding scan_file_def by (auto split: if_splits intro: scan_data_chain_fuel)

lemma scan_next_fuel:
  "scan_next fuel block st3 = Some st' \<Longrightarrow> scan_next (fuel + k) block st3 = Some st'"
  unfolding scan_next_def by (auto split: if_splits intro: scan_used_blocks_fuel)

lemma scan_dirs_step: "scan_dirs fuel st b block = Some st2 \<Longrightarrow> scan_step st st2"
  unfolding scan_dirs_def
  by (auto split: if_splits option.splits
           intro: scan_step_trans [OF scan_step_mark_used scan_hash_slots_step])

lemma scan_file_step: "scan_file fuel st block st2 = Some st3 \<Longrightarrow> scan_step st2 st3"
  unfolding scan_file_def by (auto split: if_splits intro: scan_data_chain_step)

text \<open>The number of blocks of the image that are not yet in the used set.\<close>

definition unmarked :: "AdfImage \<Rightarrow> nat" where
  "unmarked st = card ({b. get_block st b \<noteq> None} - used_blocks st)"

lemma unmarked_step: "scan_step st st' \<Longrightarrow> unmarked st' \<le> unmarked st"
proof -
  assume s: "scan_step st st'"
  then have g: "get_block st' = get_block st"
    by (intro sets_only_get_block) (simp add: scan_step_def)
  from s have "used_blocks st \<subseteq> used_blocks st'" by (simp add: scan_step_def)
  then have "{b. get_block st b \<noteq> None} - used_blocks st'
             \<subseteq> {b. get_block st b \<noteq> None} - used_blocks st" by blast
  then show ?thesis unfolding unmarked_def g by (intro card_mono) simp_all
qed

lemma unmarked_mark:
  assumes "get_block st b \<noteq> None" "b \<notin> used_blocks st"
  shows "unmarked (mark_used st b) < unmarked st"
proof -
  have "{c. get_block st c \<noteq> None} - insert b (used_blocks st)
        \<subset> {c. get_block st c \<noteq> None} - used_blocks st"
    using assms by blast
  moreover have "used_blocks (mark_used st b) = insert b (used_blocks st)"
    by (simp add: mark_used_def)
  ultimately show ?thesis
    unfolding unmarked_def get_block_mark_used by (simp add: psubset_card_mono)
qed

lemma file_chains_end_cong:
  assumes "sets_only st st'"
  shows "file_chains_end st' = file_chains_end st"
proof -
  have g: "get_block st' = get_block st" and r: "rd32 st' = rd32 st"
    using assms by (rule sets_only_get_block, rule sets_only_rd32)
  have c: "chain_ends_within st' = chain_ends_within st"
    by (intro ext) (rule chain_ends_within_cong [OF assms])
  show ?thesis
    unfolding file_chains_end_def g r c ..
qed

lemma file_chains_end_step: "scan_step st st' \<Longrightarrow> file_chains_end st \<Longrightarrow> file_chains_end st'"
  using file_chains_end_cong [of st st'] by (simp add: scan_step_def)

lemma scan_hash_slots_returns_aux:
  assumes ih: "\<And>st b. file_chains_end st \<Longrightarrow> unmarked st \<le> n
                 \<Longrightarrow> \<exists>fuel st'. scan_used_blocks fuel st b = Some st'"
  shows "file_chains_end st \<Longrightarrow> unmarked st \<le> n
         \<Longrightarrow> \<exists>fuel st'. scan_hash_slots fuel st dir slots = Some st'"
proof (induction slots arbitrary: st)
  case Nil
  show ?case by simp
next
  case (Cons i rest)
  show ?case
  proof (cases "rd32 st dir (o_table + 4 * i) = 0")
    case True
    with Cons.IH [OF Cons.prems] show ?thesis by simp
  next
    case False
    from ih [OF Cons.prems] obtain f1 st1 where
      a: "scan_used_blocks f1 st (rd32 st dir (o_table + 4 * i)) = Some st1" by blast
    then have st: "scan_step st st1" by (rule scan_used_blocks_step)
    from Cons.IH [OF file_chains_end_step [OF st Cons.prems(1)]
                     le_trans [OF unmarked_step [OF st] Cons.prems(2)]]
    obtain f2 st' where b: "scan_hash_slots f2 st1 dir rest = Some st'" by blast
    from scan_used_blocks_fuel [OF a, of f2] scan_hash_slots_fuel [OF b, of f1] False
    have "scan_hash_slots (f1 + f2) st dir (i # rest) = Some st'"
      by (simp add: add.commute)
    then show ?thesis by blast
  qed
qed

lemma scan_used_blocks_returns:
  "file_chains_end st \<Longrightarrow> unmarked st \<le> n
   \<Longrightarrow> \<exists>fuel st'. scan_used_blocks fuel st b = Some st'"
proof (induction n arbitrary: st b)
  case 0
  show ?case
  proof (cases "b = 0 \<or> b \<in> used_blocks st")
    case True
    then have "scan_used_blocks (Suc 0) st b = Some st" by auto
    then show ?thesis by blast
  next
    case False
    have "get_block st b = None"
    proof (rule ccontr)
      assume "get_block st b \<noteq> None"
      from unmarked_mark [OF this] False "0.prems"(2) show False by simp
    qed
    with False have "scan_used_blocks (Suc 0) st b = Some (mark_used st b)" by auto
    then show ?thesis by blast
  qed
next
  case (Suc n)
  have slots: "\<exists>fuel s'. scan_hash_slots fuel s dir sl = Some s'"
    if "file_chains_end s" "unmarked s \<le> n" for s dir sl
    using that by (rule scan_hash_slots_returns_aux [rotated, where n = n]) (rule Suc.IH)
  show ?case
  proof (cases "b = 0 \<or> b \<in> used_blocks st")
    case True
    then have "scan_used_blocks (Suc 0) st b = Some st" by auto
    then show ?thesis by blast
  next
    case False
    show ?thesis
    proof (cases "get_block st b")
      case None
      with False have "scan_used_blocks (Suc 0) st b = Some (mark_used st b)" by auto
      then show ?thesis by blast
    next
      case (Some block)
      let ?m = "mark_used st b"
      have um: "unmarked ?m \<le> n"
        using unmarked_mark [of st b] Some False Suc.prems(2) by simp
      have fm: "file_chains_end ?m"
        using Suc.prems(1) by (simp add: file_chains_end_cong [of st])
      have "\<exists>fA st2. scan_dirs fA st b block = Some st2"
        unfolding scan_dirs_readable [OF Some] using slots [OF fm um, of block hash_slots]
        by (cases "is_dir_sec_type (rd32 st block o_sec_type)") simp_all
      then obtain fA st2 where A: "scan_dirs fA st b block = Some st2" by blast
      have s2: "scan_step st st2" using A by (rule scan_dirs_step)
      have so2: "sets_only st st2" using s2 by (simp add: scan_step_def)
      have "\<exists>fB st3. scan_file fB st block st2 = Some st3"
      proof (cases "rd32 st block o_sec_type = ST_FILE")
        case False
        then show ?thesis by (simp add: scan_file_def)
      next
        case True
        with Suc.prems(1) Some obtain k where
          "chain_ends_within st (rd32 st block o_first_data) k"
          unfolding file_chains_end_def by blast
        then have "chain_ends_within st2 (rd32 st2 block o_first_data) k"
          by (simp add: chain_ends_within_cong [OF so2] sets_only_rd32 [OF so2])
        from scan_data_chain_returns [OF this] obtain st3 where
          "scan_data_chain (Suc k) st2 (rd32 st2 block o_first_data) = Some st3" by blast
        with True have "scan_file (Suc k) st block st2 = Some st3"
          unfolding scan_file_def by (simp del: scan_data_chain.simps)
        then show ?thesis by blast
      qed
      then obtain fB st3 where B: "scan_file fB st block st2 = Some st3" by blast
      have s3: "scan_step st2 st3" using B by (rule scan_file_step)
      have "scan_step ?m st3"
      proof -
        have "scan_step ?m st2"
          using A unfolding scan_dirs_readable [OF Some]
          by (auto split: if_splits intro: scan_hash_slots_step)
        then show ?thesis using s3 by (rule scan_step_trans)
      qed
      then have u3: "unmarked st3 \<le> n" and f3: "file_chains_end st3"
        using um fm unmarked_step file_chains_end_step by (fastforce, blast)
      have "\<exists>fC st'. scan_next fC block st3 = Some st'"
        unfolding scan_next_def using Suc.IH [OF f3 u3] by auto
      then obtain fC st' where C: "scan_next fC block st3 = Some st'" by blast
      let ?f = "fA + fB + fC"
      have "scan_dirs ?f st b block = Some st2"
        using scan_dirs_fuel [OF A, of "fB + fC"] by (simp add: add.assoc)
      moreover have "scan_file ?f st block st2 = Some st3"
        using scan_file_fuel [OF B, of "fA + fC"] by (simp add: ac_simps)
      moreover have "scan_next ?f block st3 = Some st'"
        using scan_next_fuel [OF C, of "fA + fB"] by (simp add: ac_simps)
      ultimately have "scan_used_blocks (Suc ?f) st b = Some st'"
        unfolding scan_used_blocks_Suc using False Some by simp
      then show ?thesis by blast
    qed
  qed
qed

lemma scan_hash_slots_returns:
  "file_chains_end st \<Longrightarrow> \<exists>fuel st'. scan_hash_slots fuel st dir slots = Some st'"
  using scan_hash_slots_returns_aux [of "unmarked st" st dir slots] scan_used_blocks_returns
  by blast

text \<open>\<open>parse_filesystem\<close> returns on every image whose file data chains end, and it
  accepts the image exactly when the root block passes its checks.\<close>

lemma parse_filesystem_total:
  assumes valid: "is_valid st" and fin: "file_chains_end st"
  shows "\<exists>fuel st'. parse_filesystem fuel st = Some (root_ok st, st')"
proof -
  let ?d = "rd32 st 0 o_disk_type"
  let ?st3 = "st\<lparr>dos_type := ?d, root_block_num := 880,
                 is_ffs := (?d = DOS_FFS \<or> ?d = DOS_FFS_INTL \<or> ?d = DOS_FFS_DC)\<rparr>"
  let ?st4 = "?st3\<lparr>volume_name := bcpl_read (blk ?st3 880) o_name\<rparr>"
  have boot: "get_block st 0 = Some 0"
    using valid by (simp add: get_block_def is_valid_def)
  have g3: "get_block ?st3 = get_block st" "get_block ?st4 = get_block st"
    by (rule get_block_cong; simp)+
  have r3: "rd32 ?st3 = rd32 st" "rd32 ?st4 = rd32 st"
    by (intro ext; simp add: rd32_def blk_def)+
  show ?thesis
  proof (cases "get_block st 880")
    case None
    then have "parse_filesystem 0 st = Some (False, ?st3)"
      unfolding parse_filesystem_def Let_def by (simp add: boot g3)
    with None show ?thesis by (intro exI [of _ 0]) (simp add: root_ok_def)
  next
    case (Some root)
    then have root: "root = 880" by (auto dest: get_block_Some)
    show ?thesis
    proof (cases "rd32 st 880 o_type = T_HEADER
                  \<and> (rd32 st 880 o_sec_type = ST_ROOT \<or> rd32 st 880 o_sec_type = 0)")
      case False
      then have "parse_filesystem 0 st = Some (False, ?st3)"
        unfolding parse_filesystem_def Let_def using Some root
        by (auto simp: boot g3 r3)
      with False show ?thesis by (intro exI [of _ 0]) (auto simp: root_ok_def)
    next
      case True
      then have pf: "parse_filesystem fuel st =
                   (case parse_bitmap fuel ?st4 of None \<Rightarrow> None | Some st5 \<Rightarrow> Some (True, st5))"
        for fuel
        unfolding parse_filesystem_def Let_def using Some root
        by (auto simp: boot g3 r3)
      define st2 where "st2 = mark_used (mark_used
             (?st4\<lparr>free_blocks := {2..<of_nat (file_size ?st4 div BLOCK_SIZE)}, used_blocks := {}\<rparr>) 0) 1"
      define st5 where "st5 = mark_used
            (bitmap_pages (of_nat (file_size ?st4 div BLOCK_SIZE)) 880 [0..<25] st2)
            (root_block_num ?st4)"
      have "sets_only ?st4 st2" by (simp add: st2_def sets_only_def mark_used_def)
      moreover have "scan_step st2 st5"
        unfolding st5_def by (rule scan_step_mark_used_trans [OF bitmap_pages_step])
      ultimately have so: "sets_only ?st4 st5"
        by (simp add: scan_step_def sets_only_def)
      have "file_chains_end ?st4"
        using fin by (simp add: file_chains_end_reads [OF g3(2) r3(2)])
      then have "file_chains_end st5"
        by (simp add: file_chains_end_cong [OF so])
      from scan_hash_slots_returns [OF this] obtain fuel st' where
        "scan_hash_slots fuel st5 880 hash_slots = Some st'" by blast
      moreover have "get_block ?st4 (root_block_num ?st4) = Some 880"
        using Some root by (simp add: g3)
      ultimately have "parse_bitmap fuel ?st4 = Some st'"
        unfolding parse_bitmap_start st5_def st2_def by simp
      with pf [of fuel] True Some have "parse_filesystem fuel st = Some (root_ok st, st')"
        by (simp add: root_ok_def)
      then show ?thesis by blast
    qed
  qed
qed

subsection \<open>A sample volume\<close>

text \<open>An 880 KiB image with DOS type \<open>DOS\3\<close>, the bitmap page in block 881 (blocks
  885 to 887 free, every other block used), and in the root directory the file \<open>a\<close>
  (header block 882, five bytes \<open>hello\<close> in data block 883) and the empty directory
  \<open>d\<close> (header block 884).\<close>

definition sample_root :: block where
  "sample_root = (\<lambda>_. 0)(3 := 2, 15 := 72, 50 := 3, 51 := 0x72, 62 := 3, 63 := 0x74,
                          318 := 3, 319 := 0x71,
                          432 := 3, 433 := 86, 434 := 111, 435 := 108, 511 := 1)"

definition sample_bitmap :: block where
  "sample_bitmap = (\<lambda>_. 0)(113 := 0xE0)"

definition sample_header :: block where
  "sample_header = (\<lambda>_. 0)(3 := 2, 6 := 3, 7 := 0x72, 18 := 3, 19 := 0x73, 327 := 5,
                            432 := 1, 433 := 97, 502 := 3, 503 := 0x70,
                            508 := 0xFF, 509 := 0xFF, 510 := 0xFF, 511 := 0xFD)"

definition sample_data :: block where
  "sample_data = (\<lambda>_. 0)(3 := 8, 6 := 3, 7 := 0x72, 11 := 1, 15 := 5,
                          24 := 104, 25 := 101, 26 := 108, 27 := 108, 28 := 111)"

definition sample_dir :: block where
  "sample_dir = (\<lambda>_. 0)(3 := 2, 6 := 3, 7 := 0x74, 432 := 1, 433 := 100, 502 := 3, 503 := 0x70,
                         511 := 2)"

definition sample_volume :: AdfImage where
  "sample_volume =
     \<lparr>mapped = True,
      mapped_data = (\<lambda>_ _. 0)(0 := boot_of 0x44 0x4F 0x53 3, 880 := sample_root,
                                 881 := sample_bitmap, 882 := sample_header, 883 := sample_data,
                                 884 := sample_dir),
      file_size = 901120, dos_type = 0, root_block_num = 0, volume_name = [], is_ffs = False,
      read_only = False, dir_cache = Map.empty, free_blocks = {}, used_blocks = {}\<rparr>"

lemma sample_volume_fields [simp]:
  "mapped sample_volume" "file_size sample_volume = 901120" "\<not> read_only sample_volume"
  "is_valid sample_volume"
  by (simp_all add: sample_volume_def is_valid_def)

lemma sample_get_block:
  "get_block sample_volume b = (if unat b < 1760 then Some (unat b) else None)"
  by (auto simp: get_block_def)

lemma sample_blk [simp]:
  "blk sample_volume 0 = boot_of 0x44 0x4F 0x53 3"
  "blk sample_volume 880 = sample_root"
  "blk sample_volume 881 = sample_bitmap"
  "blk sample_volume 882 = sample_header"
  "blk sample_volume 883 = sample_data"
  "blk sample_volume 884 = sample_dir"
  "p \<notin> {0, 880, 881, 882, 883, 884} \<Longrightarrow> blk sample_volume p = (\<lambda>_. 0)"
  by (auto simp: blk_def sample_volume_def)

lemma be32_zero_block [simp]: "be32 (\<lambda>_. 0) off = 0"
  by (simp add: be32_def)

lemma sample_header_words [simp]:
  "be32 sample_header 0 = 2" "be32 sample_header 16 = 883" "be32 sample_header 324 = 5"
  "be32 sample_header 496 = 0" "be32 sample_header 508 = - 3"
  by (simp_all add: be32_def sample_header_def)

lemma sample_data_words [simp]:
  "be32 sample_data 12 = 5" "be32 sample_data 16 = 0" "be32 sample_data 508 = 0"
  by (simp_all add: be32_def sample_data_def)

lemma sample_root_words [simp]:
  "be32 sample_root 0 = 2" "be32 sample_root 508 = 1" "be32 sample_root 316 = 881"
  "i < 72 \<Longrightarrow> be32 sample_root (24 + 4 * i) = (if i = 6 then 882 else if i = 9 then 884 else 0)"
  "0 < i \<Longrightarrow> i < 25 \<Longrightarrow> be32 sample_root (316 + 4 * i) = 0"
  by (auto simp: be32_def sample_root_def)

lemma sample_other_words [simp]:
  "be32 (boot_of a b c d) 508 = 0" "be32 sample_bitmap 508 = 0" "be32 sample_dir 508 = 2"
  by (simp_all add: be32_def boot_of_def sample_bitmap_def sample_dir_def)

lemma sample_sec_types:
  "rd32 sample_volume p o_sec_type = ST_FILE \<longleftrightarrow> p = 882"
proof (cases "p \<in> {0, 880, 881, 882, 883, 884}")
  case False
  then show ?thesis by (auto simp: rd32_def)
next
  case True
  then show ?thesis
    by (auto simp: rd32_def)
qed

lemma sample_file_chains_end: "file_chains_end sample_volume"
proof -
  have "chain_ends_within sample_volume (rd32 sample_volume 882 o_first_data) (Suc (Suc 0))"
    by (simp add: rd32_def sample_get_block)
  then show ?thesis
    unfolding file_chains_end_def sample_sec_types by blast
qed

lemma sample_root_ok: "root_ok sample_volume"
  by (simp add: root_ok_def rd32_def sample_get_block)

text \<open>
  Claim C8, as the code has it. On volume open the parser keeps the DOS type of block 0,
  fixes the root block at 880 and sets the FFS flag exactly when the whole 32-bit DOS
  type is \<open>DOS\1\<close>, \<open>DOS\3\<close> or \<open>DOS\5\<close>. Whenever the parser returns, it
  accepts the image exactly when the root block is readable, of type 2 and of secondary
  type 1 or 0, whatever the DOS type; and it does return, with that answer, on every image
  in which the data chain of each file header ends.
\<close>

theorem ffs_flag_from_dos_type:
  assumes "is_valid st"
  shows "(\<forall>fuel ok st'. parse_filesystem fuel st = Some (ok, st') \<longrightarrow>
            is_ffs st' = (rd32 st 0 o_disk_type = DOS_FFS \<or> rd32 st 0 o_disk_type = DOS_FFS_INTL
                          \<or> rd32 st 0 o_disk_type = DOS_FFS_DC)
            \<and> dos_type st' = rd32 st 0 o_disk_type
            \<and> root_block_num st' = 880
            \<and> ok = root_ok st)
         \<and> (file_chains_end st \<longrightarrow>
              (\<exists>fuel st'. parse_filesystem fuel st = Some (root_ok st, st')))"
proof (intro conjI allI impI)
  fix fuel ok st'
  assume "parse_filesystem fuel st = Some (ok, st')"
  from parse_filesystem_result [OF assms this]
  show "is_ffs st' = (rd32 st 0 o_disk_type = DOS_FFS \<or> rd32 st 0 o_disk_type = DOS_FFS_INTL
                          \<or> rd32 st 0 o_disk_type = DOS_FFS_DC)"
    and "dos_type st' = rd32 st 0 o_disk_type"
    and "root_block_num st' = 880"
    and "ok = root_ok st"
    by blast+
next
  assume "file_chains_end st"
  with assms show "\<exists>fuel st'. parse_filesystem fuel st = Some (root_ok st, st')"
    by (rule parse_filesystem_total)
qed

theorem ffs_flag_from_dos_type_witness:
  "is_valid sample_volume \<and> file_chains_end sample_volume \<and> root_ok sample_volume
   \<and> rd32 sample_volume 0 o_disk_type = DOS_FFS_INTL
   \<and> (\<exists>fuel st'. parse_filesystem fuel sample_volume = Some (True, st')
         \<and> is_ffs st' \<and> dos_type st' = DOS_FFS_INTL \<and> root_block_num st' = 880)"
proof -
  have v: "is_valid sample_volume" by simp
  have d: "rd32 sample_volume 0 o_disk_type = DOS_FFS_INTL"
    by (simp add: rd32_def boot_of_type)
  note t = ffs_flag_from_dos_type [OF v]
  from t sample_file_chains_end sample_root_ok
  obtain fuel st' where p: "parse_filesystem fuel sample_volume = Some (True, st')"
    by auto
  from t p d have "is_ffs st' \<and> dos_type st' = DOS_FFS_INTL \<and> root_block_num st' = 880"
    by simp
  with p v d sample_file_chains_end sample_root_ok show ?thesis by blast
qed

text \<open>The claim as stated fails: the low byte of the DOS type is 1, the prefix is not
  \<open>DOS\<close>; the image is accepted and the FFS flag stays clear.\<close>

theorem ffs_flag_low_byte_counterexample:
  "rd32 (volume_of (boot_of 0 0 0 1) (root_of 3 0x71)) 0 o_disk_type AND 0xFF = 1
   \<and> (\<exists>st'. parse_filesystem 1 (volume_of (boot_of 0 0 0 1) (root_of 3 0x71)) = Some (True, st')
             \<and> \<not> is_ffs st')"
proof -
  let ?v = "volume_of (boot_of 0 0 0 1) (root_of 3 0x71)"
  obtain st' where p: "parse_filesystem 1 ?v = Some (True, st')"
    using volume_parses by blast
  have v: "is_valid ?v" by simp
  have d: "rd32 ?v 0 o_disk_type = 1" by (simp add: boot_of_type)
  from parse_filesystem_result [OF v p] d p show ?thesis by simp
qed

section \<open>The allocator\<close>

text \<open>\<open>image_only st st'\<close>: \<open>st'\<close> differs from \<open>st\<close> in the image bytes at most.\<close>

definition image_only :: "AdfImage \<Rightarrow> AdfImage \<Rightarrow> bool" where
  "image_only st st' \<longleftrightarrow>
     mapped st' = mapped st \<and> file_size st' = file_size st
     \<and> dos_type st' = dos_type st \<and> root_block_num st' = root_block_num st
     \<and> volume_name st' = volume_name st \<and> is_ffs st' = is_ffs st
     \<and> read_only st' = read_only st \<and> dir_cache st' = dir_cache st
     \<and> free_blocks st' = free_blocks st \<and> used_blocks st' = used_blocks st"

lemma image_only_refl [simp]: "image_only st st"
  by (simp add: image_only_def)

lemma image_only_trans: "image_only a b \<Longrightarrow> image_only b c \<Longrightarrow> image_only a c"
  by (simp add: image_only_def)

lemma image_only_upd [simp]:
  "image_only st (set_blk st p b)"
  "image_only st (wr32 st p off v)"
  "image_only st (checksum_block st p)"
  by (simp_all add: image_only_def)

lemma update_bitmap_for_block_image_only [simp]:
  "image_only st (update_bitmap_for_block st b f)"
  unfolding update_bitmap_for_block_def Let_def
  by (simp add: image_only_def split: option.splits)

text \<open>The invariant of claim C3, with the root block number the volume holds.\<close>

definition partition_ok :: "AdfImage \<Rightarrow> bool" where
  "partition_ok st \<longleftrightarrow>
     free_blocks st \<inter> used_blocks st = {}
     \<and> {b. unat b < file_size st div BLOCK_SIZE} \<subseteq> free_blocks st \<union> used_blocks st
     \<and> 0 \<in> used_blocks st \<and> 1 \<in> used_blocks st \<and> root_block_num st \<in> used_blocks st"

text \<open>\<open>allocate_block\<close> either fails and changes nothing, or hands out the least free
  block, moves it to the used set and changes image bytes.\<close>

lemma allocate_block_cases:
  fixes st :: AdfImage
  defines "b \<equiv> Min (free_blocks st)"
  defines "st1 \<equiv> st\<lparr>free_blocks := free_blocks st - {b}, used_blocks := insert b (used_blocks st)\<rparr>"
  shows "allocate_block st = (0, st)
         \<or> (free_blocks st \<noteq> {} \<and> b div 4064 < 25
            \<and> (\<exists>st2. allocate_block st = (b, st2) \<and> image_only st1 st2))"
proof (cases "free_blocks st = {}")
  case True
  then show ?thesis by (simp add: allocate_block_def)
next
  case ne: False
  show ?thesis
  proof (cases "b div 4064 \<ge> 25")
    case True
    with ne show ?thesis by (simp add: allocate_block_def b_def Let_def)
  next
    case idx: False
    show ?thesis
    proof (cases "get_block st (root_block_num st)")
      case None
      with ne idx show ?thesis by (simp add: allocate_block_def b_def Let_def)
    next
      case (Some root)
      show ?thesis
      proof (cases "rd32 st root (o_bm_pages + 4 * unat (b div 4064)) = 0")
        case True
        with ne idx Some show ?thesis by (simp add: allocate_block_def b_def Let_def)
      next
        case False
        define st2 where "st2 = update_bitmap_for_block st1 b False"
        have io: "image_only st1 st2" unfolding st2_def by simp
        have eq: "allocate_block st =
                    (case get_block_writable st2 b of
                       None \<Rightarrow> (b, st2)
                     | Some data \<Rightarrow> (b, set_blk st2 data (memset_at (blk st2 data) 0 0 BLOCK_SIZE)))"
          using ne idx Some False
          unfolding allocate_block_def Let_def st2_def st1_def b_def by simp
        have "\<exists>st3. allocate_block st = (b, st3) \<and> image_only st1 st3"
        proof (cases "get_block_writable st2 b")
          case None
          with eq io show ?thesis by simp
        next
          case (Some data)
          with eq have "allocate_block st
                         = (b, set_blk st2 data (memset_at (blk st2 data) 0 0 BLOCK_SIZE))"
            by simp
          moreover have "image_only st1 (set_blk st2 data (memset_at (blk st2 data) 0 0 BLOCK_SIZE))"
            by (rule image_only_trans [OF io]) simp
          ultimately show ?thesis by blast
        qed
        with ne idx show ?thesis by (simp add: not_le)
      qed
    qed
  qed
qed

lemma allocate_block_partition:
  assumes "partition_ok st"
  shows "partition_ok (snd (allocate_block st))"
    and "free_blocks (snd (allocate_block st)) \<union> used_blocks (snd (allocate_block st))
           = free_blocks st \<union> used_blocks st"
proof -
  let ?b = "Min (free_blocks st)"
  have both: "partition_ok (snd (allocate_block st))
    \<and> free_blocks (snd (allocate_block st)) \<union> used_blocks (snd (allocate_block st))
           = free_blocks st \<union> used_blocks st"
    using allocate_block_cases [of st]
  proof (elim disjE conjE exE)
    assume "allocate_block st = (0, st)"
    with assms show ?thesis by simp
  next
    fix st2
    assume ne: "free_blocks st \<noteq> {}" and eq: "allocate_block st = (?b, st2)"
      and io: "image_only (st\<lparr>free_blocks := free_blocks st - {?b},
                              used_blocks := insert ?b (used_blocks st)\<rparr>) st2"
    have m: "?b \<in> free_blocks st" using ne by (intro Min_in) simp_all
    from io have f: "file_size st2 = file_size st" "root_block_num st2 = root_block_num st"
      "free_blocks st2 = free_blocks st - {?b}" "used_blocks st2 = insert ?b (used_blocks st)"
      by (simp_all add: image_only_def)
    from assms m show ?thesis
      unfolding eq snd_conv partition_ok_def f by auto
  qed
  from both show "partition_ok (snd (allocate_block st))" by simp
  from both show "free_blocks (snd (allocate_block st)) \<union> used_blocks (snd (allocate_block st))
           = free_blocks st \<union> used_blocks st" by simp
qed

lemma free_block_sets:
  "free_blocks (free_block st b) = (if b < 2 \<or> b = root_block_num st then free_blocks st
                                    else insert b (free_blocks st))"
  "used_blocks (free_block st b) = (if b < 2 \<or> b = root_block_num st then used_blocks st
                                    else used_blocks st - {b})"
  "file_size (free_block st b) = file_size st"
  "root_block_num (free_block st b) = root_block_num st"
proof -
  let ?st1 = "st\<lparr>used_blocks := used_blocks st - {b}, free_blocks := insert b (free_blocks st)\<rparr>"
  have "image_only ?st1 (update_bitmap_for_block ?st1 b True)" by simp
  then show "free_blocks (free_block st b) = (if b < 2 \<or> b = root_block_num st then free_blocks st
                                    else insert b (free_blocks st))"
    "used_blocks (free_block st b) = (if b < 2 \<or> b = root_block_num st then used_blocks st
                                    else used_blocks st - {b})"
    "file_size (free_block st b) = file_size st"
    "root_block_num (free_block st b) = root_block_num st"
    unfolding free_block_def Let_def image_only_def by simp_all
qed

lemma free_block_partition:
  assumes "partition_ok st"
  shows "partition_ok (free_block st b)"
proof -
  have "b < 2 \<longleftrightarrow> b = 0 \<or> b = 1"
    using small_word_cases [of b] by (auto simp: word_less_nat_alt)
  with assms show ?thesis
    unfolding partition_ok_def free_block_sets by auto
qed





section \<open>The block sets under the operations\<close>

text \<open>\<open>vol_step k st st'\<close>: from \<open>st\<close> to \<open>st'\<close> the geometry of the volume stays and the
  invariant of the block sets is kept; for \<open>k\<close> (operations that allocate) the union of
  the two sets stays, otherwise (operations that free) the used set does not grow and the
  free set does not shrink.\<close>

definition vol_step :: "bool \<Rightarrow> AdfImage \<Rightarrow> AdfImage \<Rightarrow> bool" where
  "vol_step k st st' \<longleftrightarrow>
     mapped st' = mapped st \<and> file_size st' = file_size st \<and> read_only st' = read_only st
     \<and> root_block_num st' = root_block_num st
     \<and> (partition_ok st \<longrightarrow> partition_ok st')
     \<and> (k \<longrightarrow> free_blocks st' \<union> used_blocks st' = free_blocks st \<union> used_blocks st)
     \<and> (\<not> k \<longrightarrow> used_blocks st' \<subseteq> used_blocks st \<and> free_blocks st \<subseteq> free_blocks st')"

named_theorems step_intros

lemma vol_step_refl [simp, step_intros]: "vol_step k st st"
  by (simp add: vol_step_def)

lemma vol_step_trans: "vol_step k a b \<Longrightarrow> vol_step k b c \<Longrightarrow> vol_step k a c"
  unfolding vol_step_def by auto

lemma vol_step_same:
  assumes "mapped st' = mapped st" "file_size st' = file_size st" "read_only st' = read_only st"
    "root_block_num st' = root_block_num st" "free_blocks st' = free_blocks st"
    "used_blocks st' = used_blocks st"
  shows "vol_step k st st'"
  using assms unfolding vol_step_def partition_ok_def by simp

lemma vol_step_get_block:
  assumes "vol_step k st st'"
  shows "get_block st' = get_block st" "get_block_writable st' = get_block_writable st"
  using assms unfolding vol_step_def
  by (auto intro: get_block_cong get_block_writable_cong)

lemma vol_step_upd [step_intros]:
  "vol_step k st0 st \<Longrightarrow> vol_step k st0 (set_blk st p b)"
  "vol_step k st0 st \<Longrightarrow> vol_step k st0 (wr32 st p off v)"
  "vol_step k st0 st \<Longrightarrow> vol_step k st0 (checksum_block st p)"
  "vol_step k st0 st \<Longrightarrow> vol_step k st0 (clear_dir_cache st)"
  "vol_step k st0 st \<Longrightarrow> vol_step k st0 (cache_directory st path es)"
  by (erule vol_step_trans, rule vol_step_same;
      simp add: clear_dir_cache_def cache_directory_def)+

lemma vol_step_update_bitmap [step_intros]:
  "vol_step k st0 st \<Longrightarrow> vol_step k st0 (update_bitmap_for_block st b f)"
proof (erule vol_step_trans, rule vol_step_same)
  have "image_only st (update_bitmap_for_block st b f)" by simp
  then show "mapped (update_bitmap_for_block st b f) = mapped st"
    "file_size (update_bitmap_for_block st b f) = file_size st"
    "read_only (update_bitmap_for_block st b f) = read_only st"
    "root_block_num (update_bitmap_for_block st b f) = root_block_num st"
    "free_blocks (update_bitmap_for_block st b f) = free_blocks st"
    "used_blocks (update_bitmap_for_block st b f) = used_blocks st"
    by (simp_all add: image_only_def)
qed

text \<open>A successful \<open>allocate_block\<close> hands out a block of the free set, which is then in the
  used set.\<close>

lemma allocate_block_result:
  assumes "fst (allocate_block st) \<noteq> 0"
  shows "fst (allocate_block st) = Min (free_blocks st)"
    and "fst (allocate_block st) \<in> free_blocks st"
    and "free_blocks (snd (allocate_block st)) = free_blocks st - {fst (allocate_block st)}"
    and "used_blocks (snd (allocate_block st)) = insert (fst (allocate_block st)) (used_blocks st)"
proof -
  let ?b = "Min (free_blocks st)"
  from allocate_block_cases [of st] assms
  obtain st2 where ne: "free_blocks st \<noteq> {}" and eq: "allocate_block st = (?b, st2)"
    and io: "image_only (st\<lparr>free_blocks := free_blocks st - {?b},
                              used_blocks := insert ?b (used_blocks st)\<rparr>) st2"
    by auto
  have m: "?b \<in> free_blocks st" using ne by (intro Min_in) simp_all
  from eq show "fst (allocate_block st) = ?b" by simp
  from eq m show "fst (allocate_block st) \<in> free_blocks st" by simp
  from eq io show "free_blocks (snd (allocate_block st)) = free_blocks st - {fst (allocate_block st)}"
    "used_blocks (snd (allocate_block st)) = insert (fst (allocate_block st)) (used_blocks st)"
    by (simp_all add: image_only_def)
qed

lemma allocate_block_geometry:
  "mapped (snd (allocate_block st)) = mapped st"
  "file_size (snd (allocate_block st)) = file_size st"
  "read_only (snd (allocate_block st)) = read_only st"
  "root_block_num (snd (allocate_block st)) = root_block_num st"
  using allocate_block_cases [of st] by (auto simp: image_only_def)

lemma vol_step_allocate_block [step_intros]:
  "vol_step True st0 st \<Longrightarrow> vol_step True st0 (snd (allocate_block st))"
proof (erule vol_step_trans)
  let ?b = "Min (free_blocks st)"
  have "free_blocks (snd (allocate_block st)) \<union> used_blocks (snd (allocate_block st))
           = free_blocks st \<union> used_blocks st"
    using allocate_block_cases [of st]
  proof (elim disjE conjE exE)
    assume "allocate_block st = (0, st)"
    then show ?thesis by simp
  next
    fix st2
    assume ne: "free_blocks st \<noteq> {}" and eq: "allocate_block st = (?b, st2)"
      and io: "image_only (st\<lparr>free_blocks := free_blocks st - {?b},
                              used_blocks := insert ?b (used_blocks st)\<rparr>) st2"
    have m: "?b \<in> free_blocks st" using ne by (intro Min_in) simp_all
    from io have "free_blocks st2 = free_blocks st - {?b}"
      "used_blocks st2 = insert ?b (used_blocks st)"
      by (simp_all add: image_only_def)
    with m show ?thesis unfolding eq snd_conv by auto
  qed
  then show "vol_step True st (snd (allocate_block st))"
    unfolding vol_step_def
    by (simp add: allocate_block_geometry allocate_block_partition(1))
qed

lemma free_block_geometry [simp]:
  "mapped (free_block st b) = mapped st"
  "file_size (free_block st b) = file_size st"
  "read_only (free_block st b) = read_only st"
  "root_block_num (free_block st b) = root_block_num st"
proof -
  let ?st1 = "st\<lparr>used_blocks := used_blocks st - {b}, free_blocks := insert b (free_blocks st)\<rparr>"
  have "image_only ?st1 (update_bitmap_for_block ?st1 b True)" by simp
  then show "mapped (free_block st b) = mapped st"
    "file_size (free_block st b) = file_size st"
    "read_only (free_block st b) = read_only st"
    "root_block_num (free_block st b) = root_block_num st"
    unfolding free_block_def Let_def image_only_def by simp_all
qed

lemma vol_step_free_block:
  "vol_step False st0 st \<Longrightarrow> vol_step False st0 (free_block st b)"
  by (erule vol_step_trans) (auto simp: vol_step_def free_block_partition free_block_sets)

lemma vol_step_free_block_known:
  "vol_step k st0 st \<Longrightarrow> b \<in> free_blocks st \<union> used_blocks st
   \<Longrightarrow> vol_step k st0 (free_block st b)"
  by (erule vol_step_trans) (auto simp: vol_step_def free_block_partition free_block_sets)

subsection \<open>\<open>write_file\<close>\<close>

lemma vol_step_init_data_block [step_intros]:
  "vol_step k st0 st \<Longrightarrow> vol_step k st0 (init_data_block st p fb seq)"
  unfolding init_data_block_def Let_def by (intro step_intros)

lemma vol_step_link_block [step_intros]:
  "vol_step k st0 st \<Longrightarrow> vol_step k st0 (link_block st p prev new)"
  unfolding link_block_def by (auto split: option.splits intro!: step_intros)

lemma vol_step_write_begin [step_intros]:
  "vol_step True st0 st \<Longrightarrow> vol_step True st0 (snd (write_begin st p fbn sz offset))"
  unfolding write_begin_def Let_def case_prod_beta
  by (auto split: option.splits intro!: step_intros)

lemma vol_step_bridge_step [step_intros]:
  "vol_step True st0 st \<Longrightarrow> vol_step True st0 (snd (bridge_step st p fbn prev cp))"
  unfolding bridge_step_def Let_def case_prod_beta
  by (auto split: option.splits intro!: step_intros)

lemma vol_step_bridge_gaps [step_intros]:
  "vol_step True st0 st \<Longrightarrow> vol_step True st0 (snd (bridge_gaps st p fbn cb pb cp target))"
proof (induction st p fbn cb pb cp target rule: bridge_gaps.induct)
  case (1 st p fbn cb pb cp target)
  show ?case
  proof (cases "cp + 488 \<le> target")
    case False
    with 1(2) show ?thesis by (subst bridge_gaps.simps) simp
  next
    case True
    show ?thesis
    proof (cases "bridge_step st p fbn pb cp")
      case (Pair r st1)
      have s1: "vol_step True st0 st1"
        using vol_step_bridge_step [OF 1(2), of p fbn pb cp] Pair by simp
      show ?thesis
      proof (cases r)
        case (Inl e)
        with True Pair s1 show ?thesis by (subst bridge_gaps.simps) simp
      next
        case (Inr nb)
        from 1(1) [OF True Pair [symmetric] Inr s1] True Pair Inr
        show ?thesis by (subst bridge_gaps.simps) simp
      qed
    qed
  qed
qed

lemma vol_step_write_alloc [step_intros]:
  "vol_step True st0 st \<Longrightarrow> vol_step True st0 (snd (write_alloc st p fbn cb pb cp bw))"
  unfolding write_alloc_def Let_def case_prod_beta
  by (auto split: option.splits intro!: step_intros)

lemma vol_step_write_chunk [step_intros]:
  "vol_step k st0 st \<Longrightarrow> vol_step k st0 (snd (write_chunk st buf sz cb pb cp bw wp))"
  unfolding write_chunk_def Let_def
  by (auto split: option.splits intro!: step_intros)

lemma vol_step_write_step [step_intros]:
  "vol_step True st0 st \<Longrightarrow> vol_step True st0 (snd (write_step st p fbn buf sz cb pb cp bw wp))"
proof -
  assume a: "vol_step True st0 st"
  obtain r st1 where wa: "write_alloc st p fbn cb pb cp bw = (r, st1)" by force
  have s1: "vol_step True st0 st1"
    using vol_step_write_alloc [OF a, of p fbn cb pb cp bw] wa by simp
  show ?thesis
  proof (cases r)
    case (Return x)
    with wa s1 show ?thesis by (simp add: write_step_def)
  next
    case (Next cb1)
    with wa vol_step_write_chunk [OF s1] show ?thesis by (simp add: write_step_def)
  qed
qed

lemma vol_step_write_loop [step_intros]:
  "vol_step True st0 st \<Longrightarrow> vol_step True st0 (snd (write_loop st p fbn buf sz cb pb cp bw wp))"
proof (induction st p fbn buf sz cb pb cp bw wp rule: write_loop.induct)
  case (1 st p fbn buf sz cb pb cp bw wp)
  show ?case
  proof (cases "bw < sz")
    case False
    with 1(2) show ?thesis by (subst write_loop.simps) simp
  next
    case True
    obtain r st1 where ws: "write_step st p fbn buf sz cb pb cp bw wp = (r, st1)" by force
    have s1: "vol_step True st0 st1"
      using vol_step_write_step [OF 1(2), of p fbn buf sz cb pb cp bw wp] ws by simp
    show ?thesis
    proof (cases r)
      case (Return x)
      with True ws s1 show ?thesis by (subst write_loop.simps) simp
    next
      case (Next t)
      obtain cb1 pb1 cp1 bw1 wp1 where t: "t = (cb1, pb1, cp1, bw1, wp1)"
        by (cases t) auto
      from 1(1) [OF True ws [symmetric] Next t [symmetric] refl refl refl s1] True ws Next t
      show ?thesis by (subst write_loop.simps) simp
    qed
  qed
qed

lemma vol_step_write_file [step_intros]:
  "vol_step True st0 st \<Longrightarrow> vol_step True st0 (snd (write_file st fbn buf sz offset now))"
proof -
  assume a: "vol_step True st0 st"
  show ?thesis
  proof (cases "get_block_writable st fbn")
    case None
    with a show ?thesis by (simp add: write_file_def)
  next
    case (Some p)
    obtain r1 st1 where wb: "write_begin st p fbn sz offset = (r1, st1)" by force
    have s1: "vol_step True st0 st1"
      using vol_step_write_begin [OF a, of p fbn sz offset] wb by simp
    show ?thesis
    proof (cases r1)
      case (Inl e)
      with a Some wb s1 show ?thesis by (simp add: write_file_def)
    next
      case (Inr fd)
      show ?thesis
      proof (cases "walk_chain st1 fd 0 0 offset")
        case (Inl e)
        with a Some wb s1 Inr show ?thesis by (simp add: write_file_def)
      next
        case wc: (Inr t)
        obtain cb pb cp where t: "t = (cb, pb, cp)" by (cases t) auto
        obtain r2 st2 where bg: "bridge_gaps st1 p fbn cb pb cp offset = (r2, st2)" by force
        have s2: "vol_step True st0 st2"
          using vol_step_bridge_gaps [OF s1, of p fbn cb pb cp offset] bg by simp
        show ?thesis
        proof (cases r2)
          case (Inl e)
          with a Some wb s2 Inr wc t bg show ?thesis by (simp add: write_file_def)
        next
          case bgr: (Inr t2)
          obtain cb1 pb1 cp1 where t2: "t2 = (cb1, pb1, cp1)" by (cases t2) auto
          obtain r3 st3 where wl: "write_loop st2 p fbn buf sz cb1 pb1 cp1 0 offset = (r3, st3)"
            by force
          have s3: "vol_step True st0 st3"
            using vol_step_write_loop [OF s2, of p fbn buf sz cb1 pb1 cp1 0 offset] wl by simp
          show ?thesis
            using a Some wb Inr wc t bg bgr t2 wl s3
            by (cases r3) (auto simp: write_file_def intro!: step_intros)
        qed
      qed
    qed
  qed
qed

subsection \<open>Directories\<close>

lemma vol_step_add_to_directory [step_intros]:
  "vol_step k st0 st \<Longrightarrow> vol_step k st0 (add_to_directory st d f name now)"
  unfolding add_to_directory_def Let_def
  by (auto split: option.splits intro!: step_intros)

lemma vol_step_remove_from_chain:
  "remove_from_chain fuel st cur tgt = Some (found, st') \<Longrightarrow> vol_step k st0 st
   \<Longrightarrow> vol_step k st0 st'"
proof (induction fuel arbitrary: cur)
  case 0
  then show ?case by simp
next
  case (Suc fuel)
  then show ?case
    by (auto split: if_splits option.splits intro!: step_intros)
qed

lemma vol_step_remove_from_directory:
  "remove_from_directory fuel st d f name now = Some st' \<Longrightarrow> vol_step k st0 st
   \<Longrightarrow> vol_step k st0 st'"
  unfolding remove_from_directory_def Let_def
  by (auto split: if_splits option.splits intro!: step_intros
           dest: vol_step_remove_from_chain)

lemma vol_step_list_dir_block:
  "list_dir_block fuel st path d = Some (es, st') \<Longrightarrow> vol_step k st0 st
   \<Longrightarrow> vol_step k st0 st'"
  unfolding list_dir_block_def
  by (auto split: if_splits option.splits Option.bind_splits intro!: step_intros)

lemma vol_step_lookup:
  "(\<forall>st path e st'. get_entry fuel now st path = Some (e, st') \<longrightarrow> vol_step k st0 st
       \<longrightarrow> vol_step k st0 st')
   \<and> (\<forall>st path es st'. list_directory fuel now st path = Some (es, st') \<longrightarrow> vol_step k st0 st
       \<longrightarrow> vol_step k st0 st')
   \<and> (\<forall>st path d st'. find_directory_block fuel now st path = Some (d, st') \<longrightarrow> vol_step k st0 st
       \<longrightarrow> vol_step k st0 st')"
proof (induction fuel)
  case 0
  show ?case by simp
next
  case (Suc fuel)
  then have ge: "\<And>st path e st'. get_entry fuel now st path = Some (e, st') \<Longrightarrow> vol_step k st0 st
       \<Longrightarrow> vol_step k st0 st'"
    and ld: "\<And>st path es st'. list_directory fuel now st path = Some (es, st') \<Longrightarrow> vol_step k st0 st
       \<Longrightarrow> vol_step k st0 st'"
    and fd: "\<And>st path d st'. find_directory_block fuel now st path = Some (d, st')
       \<Longrightarrow> vol_step k st0 st \<Longrightarrow> vol_step k st0 st'"
    by blast+
  show ?case
  proof (intro conjI allI impI)
    fix st path e st'
    assume "get_entry (Suc fuel) now st path = Some (e, st')" "vol_step k st0 st"
    then show "vol_step k st0 st'"
      by (auto split: if_splits Option.bind_splits dest: ld)
  next
    fix st path es st'
    assume "list_directory (Suc fuel) now st path = Some (es, st')" "vol_step k st0 st"
    then show "vol_step k st0 st'"
      by (auto split: option.splits Option.bind_splits dest: fd vol_step_list_dir_block)
  next
    fix st path d st'
    assume "find_directory_block (Suc fuel) now st path = Some (d, st')" "vol_step k st0 st"
    then show "vol_step k st0 st'"
      by (auto split: if_splits Option.bind_splits dest: ge)
  qed
qed

lemma vol_step_get_entry:
  "get_entry fuel now st path = Some (e, st') \<Longrightarrow> vol_step k st0 st \<Longrightarrow> vol_step k st0 st'"
  using vol_step_lookup [of fuel now k st0] by blast

lemma vol_step_list_directory:
  "list_directory fuel now st path = Some (es, st') \<Longrightarrow> vol_step k st0 st
   \<Longrightarrow> vol_step k st0 st'"
  using vol_step_lookup [of fuel now k st0] by blast

lemma vol_step_find_directory_block:
  "find_directory_block fuel now st path = Some (d, st') \<Longrightarrow> vol_step k st0 st
   \<Longrightarrow> vol_step k st0 st'"
  using vol_step_lookup [of fuel now k st0] by blast

subsection \<open>\<open>create_file\<close> and \<open>create_directory\<close>\<close>

lemma vol_step_init_header [step_intros]:
  "vol_step k st0 st \<Longrightarrow> vol_step k st0 (init_file_header st p b parent name now)"
  "vol_step k st0 st \<Longrightarrow> vol_step k st0 (init_dir_header st p b parent name now)"
  unfolding init_file_header_def init_dir_header_def Let_def by (intro step_intros; assumption)+

lemma vol_step_free_allocated:
  assumes "vol_step True st0 st" and "fst (allocate_block st) \<noteq> 0"
  shows "vol_step True st0 (free_block (snd (allocate_block st)) (fst (allocate_block st)))"
proof (rule vol_step_free_block_known)
  show "vol_step True st0 (snd (allocate_block st))"
    using assms(1) by (rule vol_step_allocate_block)
  show "fst (allocate_block st) \<in> free_blocks (snd (allocate_block st))
                                     \<union> used_blocks (snd (allocate_block st))"
    using allocate_block_result(4) [OF assms(2)] by simp
qed

lemma vol_step_create_in [step_intros]:
  "vol_step True st0 st \<Longrightarrow> vol_step True st0 (snd (create_in st parent name now))"
  "vol_step True st0 st \<Longrightarrow> vol_step True st0 (snd (create_dir_in st parent name now))"
  unfolding create_in_def create_dir_in_def Let_def case_prod_beta
  by (auto split: option.splits intro!: step_intros vol_step_free_allocated)

lemma vol_step_create_in_eq:
  "create_in x parent name now = (r, st') \<Longrightarrow> vol_step True st0 x \<Longrightarrow> vol_step True st0 st'"
  "create_dir_in x parent name now = (r, st') \<Longrightarrow> vol_step True st0 x \<Longrightarrow> vol_step True st0 st'"
  using vol_step_create_in [of st0 x parent name now] by simp_all

lemma vol_step_create_file:
  "create_file fuel now st path = Some (r, st') \<Longrightarrow> vol_step True st st'"
  unfolding create_file_def Let_def
  by (auto split: if_splits option.splits prod.splits
           dest!: vol_step_get_entry [where k = True and ?st0.0 = st]
                  vol_step_find_directory_block [where k = True and ?st0.0 = st]
           dest: vol_step_create_in_eq)

lemma vol_step_create_directory:
  "create_directory fuel now st path = Some (r, st') \<Longrightarrow> vol_step True st st'"
  unfolding create_directory_def Let_def
  by (auto split: if_splits option.splits prod.splits
           dest!: vol_step_get_entry [where k = True and ?st0.0 = st]
                  vol_step_find_directory_block [where k = True and ?st0.0 = st]
           dest: vol_step_create_in_eq)

subsection \<open>\<open>delete_file\<close>, \<open>delete_directory\<close>, \<open>truncate_file\<close>\<close>

lemma vol_step_free_chain:
  "free_chain fuel st d = Some st' \<Longrightarrow> vol_step False st0 st \<Longrightarrow> vol_step False st0 st'"
proof (induction fuel arbitrary: st d)
  case 0
  then show ?case by simp
next
  case (Suc fuel)
  show ?case
  proof (cases "d = 0")
    case True
    with Suc.prems show ?thesis by simp
  next
    case False
    with Suc.prems have "free_chain fuel (free_block st d)
             (case get_block st d of None \<Rightarrow> 0 | Some data \<Rightarrow> rd32 st data o_next_data) = Some st'"
      by simp
    then show ?thesis
      by (rule Suc.IH) (rule vol_step_free_block [OF Suc.prems(2)])
  qed
qed

lemma vol_step_delete_entry:
  "delete_entry fuel st parent entry now = Some (r, st') \<Longrightarrow> vol_step False st0 st
   \<Longrightarrow> vol_step False st0 st'"
  unfolding delete_entry_def
  by (auto split: option.splits
           intro!: step_intros vol_step_free_block
           dest!: vol_step_remove_from_directory [where k = False and ?st0.0 = st0]
           dest: vol_step_free_chain)

lemma vol_step_delete_dir_entry:
  "delete_dir_entry fuel st parent entry now = Some (r, st') \<Longrightarrow> vol_step False st0 st
   \<Longrightarrow> vol_step False st0 st'"
  unfolding delete_dir_entry_def
  by (auto split: option.splits
           intro!: step_intros vol_step_free_block
           dest!: vol_step_remove_from_directory [where k = False and ?st0.0 = st0])

lemma vol_step_delete_file:
  "delete_file fuel now st path = Some (r, st') \<Longrightarrow> vol_step False st st'"
  unfolding delete_file_def
  by (auto split: if_splits option.splits prod.splits
           dest!: vol_step_get_entry [where k = False and ?st0.0 = st]
                  vol_step_find_directory_block [where k = False and ?st0.0 = st]
           dest: vol_step_delete_entry)

lemma vol_step_delete_directory:
  "delete_directory fuel now st path = Some (r, st') \<Longrightarrow> vol_step False st st'"
  unfolding delete_directory_def
  by (auto split: if_splits option.splits prod.splits
           dest!: vol_step_get_entry [where k = False and ?st0.0 = st]
                  vol_step_list_directory [where k = False and ?st0.0 = st]
                  vol_step_find_directory_block [where k = False and ?st0.0 = st]
           dest: vol_step_delete_dir_entry)

lemma vol_step_truncate_chain:
  "truncate_chain fuel st p sz needed = Some st' \<Longrightarrow> vol_step False st0 st
   \<Longrightarrow> vol_step False st0 st'"
  unfolding truncate_chain_def Let_def
  by (auto split: if_splits option.splits prod.splits
           simp del: keep_blocks.simps
           intro!: step_intros
           dest!: vol_step_free_chain [where ?st0.0 = st0])

lemma vol_step_truncate_entry:
  "truncate_entry fuel st entry sz now = Some (r, st') \<Longrightarrow> vol_step False st0 st
   \<Longrightarrow> vol_step False st0 st'"
  unfolding truncate_entry_def Let_def
  by (auto split: if_splits option.splits
           intro!: step_intros
           dest!: vol_step_truncate_chain [where ?st0.0 = st0])

lemma vol_step_truncate_file:
  "truncate_file fuel now st path sz = Some (r, st') \<Longrightarrow> vol_step False st st'"
  unfolding truncate_file_def
  by (auto split: if_splits option.splits prod.splits
           dest!: vol_step_get_entry [where k = False and ?st0.0 = st]
           dest: vol_step_truncate_entry)

section \<open>What volume open puts into the used set\<close>

text \<open>The block numbers the image references from the root block in \<open>r\<close>: the bitmap page
  pointers, the headers in the hash tables and hash chains of the directories, and the data
  blocks in the chains of the file headers.\<close>

definition bm_pointers :: "AdfImage \<Rightarrow> nat \<Rightarrow> u32 set" where
  "bm_pointers st r = {b. b \<noteq> 0 \<and> (\<exists>i<25. rd32 st r (o_bm_pages + 4 * i) = b)}"

inductive hdr_reach :: "AdfImage \<Rightarrow> nat \<Rightarrow> u32 \<Rightarrow> bool" for st :: AdfImage and r :: nat where
  root_slot: "i < HASH_TABLE_SIZE \<Longrightarrow> rd32 st r (o_table + 4 * i) \<noteq> 0
     \<Longrightarrow> hdr_reach st r (rd32 st r (o_table + 4 * i))"
| dir_slot: "hdr_reach st r d \<Longrightarrow> get_block st d = Some p
     \<Longrightarrow> is_dir_sec_type (rd32 st p o_sec_type)
     \<Longrightarrow> i < HASH_TABLE_SIZE \<Longrightarrow> rd32 st p (o_table + 4 * i) \<noteq> 0
     \<Longrightarrow> hdr_reach st r (rd32 st p (o_table + 4 * i))"
| hash_chain: "hdr_reach st r d \<Longrightarrow> get_block st d = Some p
     \<Longrightarrow> rd32 st p o_hash_chain \<noteq> 0
     \<Longrightarrow> hdr_reach st r (rd32 st p o_hash_chain)"

inductive data_reach :: "AdfImage \<Rightarrow> nat \<Rightarrow> u32 \<Rightarrow> bool" for st :: AdfImage and r :: nat where
  first_data: "hdr_reach st r h \<Longrightarrow> get_block st h = Some p
     \<Longrightarrow> rd32 st p o_sec_type = ST_FILE \<Longrightarrow> rd32 st p o_first_data \<noteq> 0
     \<Longrightarrow> data_reach st r (rd32 st p o_first_data)"
| next_data: "data_reach st r d \<Longrightarrow> get_block st d = Some p
     \<Longrightarrow> rd32 st p o_next_data \<noteq> 0
     \<Longrightarrow> data_reach st r (rd32 st p o_next_data)"

definition referenced :: "AdfImage \<Rightarrow> u32 set" where
  "referenced st = bm_pointers st 880 \<union> {b. hdr_reach st 880 b} \<union> {b. data_reach st 880 b}"

text \<open>The blocks below \<open>total_blocks\<close> whose bit is clear in a bitmap page of the root
  block in \<open>r\<close>.\<close>

definition bitmap_used :: "AdfImage \<Rightarrow> nat \<Rightarrow> u32 set" where
  "bitmap_used st r =
     {b. \<exists>i j k p. i < 25 \<and> j < 127 \<and> k < 32
           \<and> rd32 st r (o_bm_pages + 4 * i) \<noteq> 0
           \<and> get_block st (rd32 st r (o_bm_pages + 4 * i)) = Some p
           \<and> rd32 st p (o_map + 4 * j) AND push_bit k 1 = 0
           \<and> b = of_nat i * 4064 + of_nat j * 32 + of_nat k
           \<and> b < of_nat (file_size st div BLOCK_SIZE)}"

text \<open>\<open>marks st0 S st\<close>: \<open>st\<close> holds the image of \<open>st0\<close> and its used set lies in \<open>S\<close>.\<close>

definition marks :: "AdfImage \<Rightarrow> u32 set \<Rightarrow> AdfImage \<Rightarrow> bool" where
  "marks st0 S st \<longleftrightarrow>
     rd32 st = rd32 st0 \<and> get_block st = get_block st0
     \<and> root_block_num st = root_block_num st0 \<and> used_blocks st \<subseteq> S"

lemma marks_mark_used: "marks st0 S st \<Longrightarrow> b \<in> S \<Longrightarrow> marks st0 S (mark_used st b)"
  by (simp add: marks_def) (simp add: mark_used_def)

lemma marks_step:
  "scan_step st st' \<Longrightarrow> rd32 st' = rd32 st \<and> get_block st' = get_block st
     \<and> root_block_num st' = root_block_num st"
proof -
  assume "scan_step st st'"
  then have so: "sets_only st st'" by (simp add: scan_step_def)
  from sets_only_rd32 [OF so] sets_only_get_block [OF so] so
  show ?thesis by (simp add: sets_only_def)
qed

lemma bitmap_bits_marks:
  assumes "marks st0 S st"
    and "\<And>k. k \<in> set bits \<Longrightarrow> wb + of_nat k < tb \<Longrightarrow> mw AND push_bit k 1 = 0
            \<Longrightarrow> wb + of_nat k \<in> S"
  shows "marks st0 S (bitmap_bits tb wb mw bits st)"
  using assms
proof (induction bits arbitrary: st)
  case Nil
  then show ?case by simp
next
  case (Cons k rest)
  show ?case
  proof (cases "wb + of_nat k \<ge> tb")
    case True
    with Cons.prems(1) show ?thesis by (simp add: Let_def)
  next
    case False
    then have lt: "wb + of_nat k < tb" by simp
    have "marks st0 S (if mw AND push_bit k 1 = 0 then mark_used st (wb + of_nat k) else st)"
      using Cons.prems(1) Cons.prems(2) [of k] lt by (simp add: marks_mark_used)
    then have "marks st0 S (bitmap_bits tb wb mw rest
                  (if mw AND push_bit k 1 = 0 then mark_used st (wb + of_nat k) else st))"
      by (rule Cons.IH) (simp add: Cons.prems(2))
    with False show ?thesis by (simp add: Let_def)
  qed
qed

lemma bitmap_words_marks:
  assumes "marks st0 S st"
    and "\<And>j k. j \<in> set js \<Longrightarrow> k < 32 \<Longrightarrow> base + of_nat j * 32 + of_nat k < tb
            \<Longrightarrow> be32 bitmap (o_map + 4 * j) AND push_bit k 1 = 0
            \<Longrightarrow> base + of_nat j * 32 + of_nat k \<in> S"
  shows "marks st0 S (bitmap_words tb base bitmap js st)"
  using assms
proof (induction js arbitrary: st)
  case Nil
  then show ?case by simp
next
  case (Cons j rest)
  have "marks st0 S (bitmap_bits tb (base + of_nat j * 32) (be32 bitmap (o_map + 4 * j))
                       [0..<32] st)"
    using Cons.prems(1) by (rule bitmap_bits_marks) (simp add: Cons.prems(2))
  then have "marks st0 S (bitmap_words tb base bitmap rest
               (bitmap_bits tb (base + of_nat j * 32) (be32 bitmap (o_map + 4 * j)) [0..<32] st))"
    by (rule Cons.IH) (simp add: Cons.prems(2))
  then show ?case by simp
qed

lemma bitmap_pages_marks:
  assumes "marks st0 S st"
    and "\<And>i. i \<in> set pages \<Longrightarrow> rd32 st0 r (o_bm_pages + 4 * i) \<noteq> 0
            \<Longrightarrow> rd32 st0 r (o_bm_pages + 4 * i) \<in> S"
    and "\<And>i j k p. i \<in> set pages \<Longrightarrow> j < 127 \<Longrightarrow> k < 32
            \<Longrightarrow> rd32 st0 r (o_bm_pages + 4 * i) \<noteq> 0
            \<Longrightarrow> get_block st0 (rd32 st0 r (o_bm_pages + 4 * i)) = Some p
            \<Longrightarrow> rd32 st0 p (o_map + 4 * j) AND push_bit k 1 = 0
            \<Longrightarrow> of_nat i * 4064 + of_nat j * 32 + of_nat k < tb
            \<Longrightarrow> of_nat i * 4064 + of_nat j * 32 + of_nat k \<in> S"
  shows "marks st0 S (bitmap_pages tb r pages st)"
  using assms
proof (induction pages arbitrary: st)
  case Nil
  then show ?case by simp
next
  case (Cons i rest)
  have eq: "rd32 st = rd32 st0" "get_block st = get_block st0"
    using Cons.prems(1) by (simp_all add: marks_def)
  let ?bm = "rd32 st0 r (o_bm_pages + 4 * i)"
  show ?case
  proof (cases "?bm = 0")
    case True
    with Cons.prems(1) show ?thesis by (simp add: eq)
  next
    case False
    have m1: "marks st0 S (mark_used st ?bm)"
      using Cons.prems(1) Cons.prems(2) [of i] False by (simp add: marks_mark_used)
    have g1: "get_block (mark_used st ?bm) = get_block st0" "rd32 (mark_used st ?bm) = rd32 st0"
      using m1 unfolding marks_def by blast+
    show ?thesis
    proof (cases "get_block st0 ?bm")
      case None
      have "marks st0 S (bitmap_pages tb r rest (mark_used st ?bm))"
        using m1 by (rule Cons.IH) (simp_all add: Cons.prems(2,3))
      with False None show ?thesis by (simp add: eq g1 Let_def)
    next
      case (Some p)
      have b: "be32 (blk (mark_used st ?bm) p) off = rd32 st0 p off" for off
        using g1(2) [THEN fun_cong, THEN fun_cong, of p off] by (simp only: rd32_def)
      have "marks st0 S (bitmap_words tb (of_nat i * 4064) (blk (mark_used st ?bm) p) [0..<127]
                           (mark_used st ?bm))"
        using m1
      proof (rule bitmap_words_marks)
        fix j k
        assume "j \<in> set [0..<127]" "k < 32" "of_nat i * 4064 + of_nat j * 32 + of_nat k < tb"
          "be32 (blk (mark_used st ?bm) p) (o_map + 4 * j) AND push_bit k 1 = 0"
        then show "of_nat i * 4064 + of_nat j * 32 + of_nat k \<in> S"
          using Cons.prems(3) [of i j k p] False Some by (simp add: b)
      qed
      then have "marks st0 S (bitmap_pages tb r rest
                   (bitmap_words tb (of_nat i * 4064) (blk (mark_used st ?bm) p) [0..<127]
                           (mark_used st ?bm)))"
        by (rule Cons.IH) (simp_all add: Cons.prems(2,3))
      with False Some show ?thesis by (simp add: eq g1 Let_def)
    qed
  qed
qed

lemma scan_data_chain_marks:
  assumes "scan_data_chain fuel st d = Some st'" and "marks st0 S st"
    and "d = 0 \<or> data_reach st0 r d" and "{b. data_reach st0 r b} \<subseteq> S"
  shows "marks st0 S st'"
  using assms(1-3)
proof (induction fuel arbitrary: st d)
  case 0
  then show ?case by simp
next
  case (Suc fuel)
  show ?case
  proof (cases "d = 0")
    case True
    with Suc.prems show ?thesis by simp
  next
    case False
    with Suc.prems(3) have dr: "data_reach st0 r d" by simp
    then have m1: "marks st0 S (mark_used st d)"
      using Suc.prems(2) assms(4) by (intro marks_mark_used) auto
    have g1: "get_block st = get_block st0" "rd32 st = rd32 st0"
      using Suc.prems(2) by (simp_all add: marks_def)
    show ?thesis
    proof (cases "get_block st0 d")
      case None
      with False Suc.prems(1) m1 show ?thesis by (simp add: g1 Let_def)
    next
      case (Some p)
      with False Suc.prems(1)
      have "scan_data_chain fuel (mark_used st d) (rd32 st0 p o_next_data) = Some st'"
        by (simp add: g1 Let_def)
      then show ?thesis
        using m1
      proof (rule Suc.IH)
        show "rd32 st0 p o_next_data = 0 \<or> data_reach st0 r (rd32 st0 p o_next_data)"
          using data_reach.next_data [OF dr Some] by blast
      qed
    qed
  qed
qed

lemma scan_hash_slots_marks_aux:
  assumes ih: "\<And>st b st'. scan_used_blocks fuel st b = Some st' \<Longrightarrow> marks st0 S st
                 \<Longrightarrow> b = 0 \<or> hdr_reach st0 r b \<Longrightarrow> marks st0 S st'"
  shows "scan_hash_slots fuel st dir slots = Some st' \<Longrightarrow> marks st0 S st
         \<Longrightarrow> (\<And>i. i \<in> set slots \<Longrightarrow> rd32 st0 dir (o_table + 4 * i) \<noteq> 0
                 \<Longrightarrow> hdr_reach st0 r (rd32 st0 dir (o_table + 4 * i)))
         \<Longrightarrow> marks st0 S st'"
proof (induction slots arbitrary: st)
  case Nil
  then show ?case by simp
next
  case (Cons i rest)
  have eq: "rd32 st = rd32 st0" using Cons.prems(2) by (simp add: marks_def)
  show ?case
  proof (cases "rd32 st0 dir (o_table + 4 * i) = 0")
    case True
    with Cons.prems(1) have "scan_hash_slots fuel st dir rest = Some st'" by (simp add: eq)
    then show ?thesis
      using Cons.prems(2) by (rule Cons.IH) (simp add: Cons.prems(3))
  next
    case False
    with Cons.prems(1) obtain st1 where
      a: "scan_used_blocks fuel st (rd32 st0 dir (o_table + 4 * i)) = Some st1"
      and b: "scan_hash_slots fuel st1 dir rest = Some st'"
      by (auto simp: bind_eq_Some_conv eq)
    have "marks st0 S st1"
      using a Cons.prems(2) by (rule ih) (simp add: Cons.prems(3) False)
    with b show ?thesis by (rule Cons.IH) (simp add: Cons.prems(3))
  qed
qed

lemma scan_used_blocks_marks:
  assumes hS: "{b. hdr_reach st0 r b} \<subseteq> S" and dS: "{b. data_reach st0 r b} \<subseteq> S"
  shows "scan_used_blocks fuel st b = Some st' \<Longrightarrow> marks st0 S st
         \<Longrightarrow> b = 0 \<or> hdr_reach st0 r b \<Longrightarrow> marks st0 S st'"
proof (induction fuel arbitrary: st b st')
  case 0
  then show ?case by simp
next
  case (Suc fuel)
  have slots: "marks st0 S s'"
    if a: "scan_hash_slots fuel s dir sl = Some s'" and b: "marks st0 S s"
      and c: "\<And>i. i \<in> set sl \<Longrightarrow> rd32 st0 dir (o_table + 4 * i) \<noteq> 0
                 \<Longrightarrow> hdr_reach st0 r (rd32 st0 dir (o_table + 4 * i))"
    for s s' dir sl
    using Suc.IH a b c by (rule scan_hash_slots_marks_aux)
  have eq: "rd32 st = rd32 st0" "get_block st = get_block st0"
    "root_block_num st = root_block_num st0"
    using Suc.prems(2) by (simp_all add: marks_def)
  show ?case
  proof (cases "b = 0 \<or> b \<in> used_blocks st")
    case True
    with Suc.prems show ?thesis by auto
  next
    case False
    with Suc.prems(3) have hr: "hdr_reach st0 r b" by simp
    then have m1: "marks st0 S (mark_used st b)"
      using Suc.prems(2) hS by (intro marks_mark_used) auto
    show ?thesis
    proof (cases "get_block st0 b")
      case None
      with False Suc.prems(1) m1 show ?thesis
        by (simp add: scan_used_blocks_Suc eq del: scan_used_blocks.simps)
    next
      case (Some block)
      with False Suc.prems(1) obtain st2 st3 where
        s2: "scan_dirs fuel st b block = Some st2"
        and s3: "scan_file fuel st block st2 = Some st3"
        and s4: "scan_next fuel block st3 = Some st'"
        by (auto simp: scan_used_blocks_Suc eq bind_eq_Some_conv simp del: scan_used_blocks.simps)
      have m2: "marks st0 S st2"
      proof (cases "is_dir_sec_type (rd32 st0 block o_sec_type)")
        case False
        with s2 m1 show ?thesis by (simp add: scan_dirs_def eq)
      next
        case True
        with s2 Some have "scan_hash_slots fuel (mark_used st b) block hash_slots = Some st2"
          by (simp add: scan_dirs_def eq split: if_splits)
        then show ?thesis
          using m1
        proof (rule slots)
          fix i
          assume "i \<in> set hash_slots" "rd32 st0 block (o_table + 4 * i) \<noteq> 0"
          then show "hdr_reach st0 r (rd32 st0 block (o_table + 4 * i))"
            using hdr_reach.dir_slot [OF hr Some True, of i] by (simp add: hash_slots_def)
        qed
      qed
      have e2: "rd32 st2 = rd32 st0" using m2 by (simp add: marks_def)
      have m3: "marks st0 S st3"
      proof (cases "rd32 st0 block o_sec_type = ST_FILE")
        case False
        with s3 m2 show ?thesis by (simp add: scan_file_def eq)
      next
        case True
        with s3 have "scan_data_chain fuel st2 (rd32 st0 block o_first_data) = Some st3"
          by (simp add: scan_file_def eq e2)
        then show ?thesis
          using m2
        proof (rule scan_data_chain_marks [OF _ _ _ dS])
          show "rd32 st0 block o_first_data = 0 \<or> data_reach st0 r (rd32 st0 block o_first_data)"
            using data_reach.first_data [OF hr Some True] by blast
        qed
      qed
      have e3: "rd32 st3 = rd32 st0" using m3 by (simp add: marks_def)
      show ?thesis
      proof (cases "rd32 st0 block o_hash_chain = 0")
        case True
        with s4 m3 show ?thesis by (simp add: scan_next_def e3)
      next
        case False
        with s4 have "scan_used_blocks fuel st3 (rd32 st0 block o_hash_chain) = Some st'"
          by (simp add: scan_next_def e3)
        then show ?thesis
          using m3
        proof (rule Suc.IH)
          show "rd32 st0 block o_hash_chain = 0 \<or> hdr_reach st0 r (rd32 st0 block o_hash_chain)"
            using hdr_reach.hash_chain [OF hr Some False] by blast
        qed
      qed
    qed
  qed
qed

text \<open>After \<open>parse_bitmap\<close> the used set holds blocks 0, 1, the root, the blocks below
  \<open>total_blocks\<close> with a clear bit, and referenced blocks only.\<close>

lemma parse_bitmap_marks:
  assumes pb: "parse_bitmap fuel st = Some st'"
    and root: "get_block st (root_block_num st) = Some r"
  shows "used_blocks st' \<subseteq> {0, 1, root_block_num st} \<union> bitmap_used st r \<union> bm_pointers st r
           \<union> {b. hdr_reach st r b} \<union> {b. data_reach st r b}"
proof -
  let ?S = "{0, 1, root_block_num st} \<union> bitmap_used st r \<union> bm_pointers st r
           \<union> {b. hdr_reach st r b} \<union> {b. data_reach st r b}"
  let ?tb = "(of_nat (file_size st div BLOCK_SIZE) :: u32)"
  define st2 where "st2 = mark_used (mark_used
             (st\<lparr>free_blocks := {2..<?tb}, used_blocks := {}\<rparr>) 0) 1"
  define st3 where "st3 = bitmap_pages ?tb r [0..<25] st2"
  define st4 where "st4 = mark_used st3 (root_block_num st)"
  have "get_block st2 = get_block st"
    by (rule get_block_cong) (simp_all add: st2_def mark_used_def)
  moreover have "rd32 st2 = rd32 st"
    by (intro ext) (simp add: st2_def mark_used_def rd32_def blk_def)
  moreover have "root_block_num st2 = root_block_num st" "used_blocks st2 = {0, 1}"
    by (auto simp: st2_def mark_used_def)
  ultimately have m2: "marks st ?S st2"
    unfolding marks_def by simp
  have m3: "marks st ?S st3"
    unfolding st3_def using m2
  proof (rule bitmap_pages_marks)
    fix i
    assume "i \<in> set [0..<25]" "rd32 st r (o_bm_pages + 4 * i) \<noteq> 0"
    then show "rd32 st r (o_bm_pages + 4 * i) \<in> ?S"
      by (auto simp: bm_pointers_def)
  next
    fix i j k p
    assume "i \<in> set [0..<25]" "j < 127" "k < 32" "rd32 st r (o_bm_pages + 4 * i) \<noteq> 0"
      "get_block st (rd32 st r (o_bm_pages + 4 * i)) = Some p"
      "rd32 st p (o_map + 4 * j) AND push_bit k 1 = 0"
      "of_nat i * 4064 + of_nat j * 32 + of_nat k < ?tb"
    then have "of_nat i * 4064 + of_nat j * 32 + of_nat k \<in> bitmap_used st r"
      unfolding bitmap_used_def by auto
    then show "of_nat i * 4064 + of_nat j * 32 + of_nat k \<in> ?S" by blast
  qed
  have m4: "marks st ?S st4"
    unfolding st4_def using m3 by (rule marks_mark_used) simp
  have "scan_hash_slots fuel st4 r hash_slots = Some st'"
    using pb root unfolding parse_bitmap_start st4_def st3_def st2_def by simp
  then have "marks st ?S st'"
    using m4
  proof (rule scan_hash_slots_marks_aux [rotated])
    fix i
    assume "i \<in> set hash_slots" "rd32 st r (o_table + 4 * i) \<noteq> 0"
    then show "hdr_reach st r (rd32 st r (o_table + 4 * i))"
      by (intro hdr_reach.root_slot) (simp_all add: hash_slots_def)
  next
    fix s b s'
    assume "scan_used_blocks fuel s b = Some s'" "marks st ?S s" "b = 0 \<or> hdr_reach st r b"
    then show "marks st ?S s'"
      by (rule scan_used_blocks_marks [rotated 2]) blast+
  qed
  then show ?thesis by (simp add: marks_def)
qed

section \<open>Directory listing\<close>

text \<open>The headers on the hash chain that starts in block \<open>b\<close>, at most \<open>n\<close> of them: the walk
  follows \<open>hash_chain\<close> until the pointer is 0 (or names no block of the image).\<close>

fun chain_headers :: "nat \<Rightarrow> AdfImage \<Rightarrow> u32 \<Rightarrow> u32 list" where
  "chain_headers 0 st b = []"
| "chain_headers (Suc n) st b =
     (if b = 0 then []
      else (case get_block st b of
              None \<Rightarrow> []
            | Some p \<Rightarrow> b # chain_headers n st (rd32 st p o_hash_chain)))"

text \<open>The hash chain from \<open>b\<close> ends after at most \<open>n\<close> headers.\<close>

fun hash_chain_ends :: "AdfImage \<Rightarrow> u32 \<Rightarrow> nat \<Rightarrow> bool" where
  "hash_chain_ends st b 0 = (b = 0 \<or> get_block st b = None)"
| "hash_chain_ends st b (Suc n) =
     (b = 0 \<or> (case get_block st b of
                  None \<Rightarrow> True
                | Some p \<Rightarrow> hash_chain_ends st (rd32 st p o_hash_chain) n))"

text \<open>The entries of a chain: one for each header with a non-empty name, in chain order.\<close>

definition has_name :: "AdfImage \<Rightarrow> u32 \<Rightarrow> bool" where
  "has_name st b \<longleftrightarrow> bcpl_read (blk st (unat b)) o_name \<noteq> []"

definition chain_entries :: "nat \<Rightarrow> AdfImage \<Rightarrow> u32 \<Rightarrow> Entry list" where
  "chain_entries n st b =
     map (\<lambda>h. make_entry st (unat h) h) (filter (has_name st) (chain_headers n st b))"

lemma chain_entries_simps:
  "chain_entries n st 0 = []"
  "get_block st b = None \<Longrightarrow> chain_entries n st b = []"
  "b \<noteq> 0 \<Longrightarrow> get_block st b = Some p \<Longrightarrow>
     chain_entries (Suc n) st b =
       (if has_name st b then [make_entry st p b] else [])
       @ chain_entries n st (rd32 st p o_hash_chain)"
proof -
  show "chain_entries n st 0 = []" by (cases n) (simp_all add: chain_entries_def)
  show "get_block st b = None \<Longrightarrow> chain_entries n st b = []"
    by (cases n) (simp_all add: chain_entries_def)
  assume "b \<noteq> 0" "get_block st b = Some p"
  moreover from this have "p = unat b" by (auto dest: get_block_Some)
  ultimately show "chain_entries (Suc n) st b =
       (if has_name st b then [make_entry st p b] else [])
       @ chain_entries n st (rd32 st p o_hash_chain)"
    by (simp add: chain_entries_def)
qed

lemma list_chain_walk:
  "hash_chain_ends st b n \<Longrightarrow> list_chain (Suc n) st b es = Some (es @ chain_entries n st b)"
proof (induction n arbitrary: b es)
  case 0
  then show ?case by (auto simp: chain_entries_simps split: option.splits)
next
  case (Suc n)
  show ?case
  proof (cases "b = 0")
    case True
    then show ?thesis by (simp add: chain_entries_simps)
  next
    case False
    show ?thesis
    proof (cases "get_block st b")
      case None
      with False show ?thesis by (simp add: chain_entries_simps)
    next
      case (Some p)
      then have p: "p = unat b" by (auto dest: get_block_Some)
      from Suc.prems False Some have "hash_chain_ends st (rd32 st p o_hash_chain) n" by simp
      note ih = Suc.IH [OF this]
      have "list_chain (Suc (Suc n)) st b es =
              list_chain (Suc n) st (rd32 st p o_hash_chain)
                (if has_name st b then es @ [make_entry st p b] else es)"
        using False Some by (simp add: has_name_def p del: list_chain.simps(2))
          (simp add: False Some p)
      then show ?thesis
        using False Some by (simp add: ih chain_entries_simps(3) del: list_chain.simps)
    qed
  qed
qed

lemma list_slots_walk:
  "(\<And>i. i \<in> set slots \<Longrightarrow> hash_chain_ends st (rd32 st dir (o_table + 4 * i)) n)
   \<Longrightarrow> list_slots (Suc n) st dir_block dir slots es
         = Some (es @ concat (map (\<lambda>i. chain_entries n st (rd32 st dir (o_table + 4 * i))) slots))"
proof (induction slots arbitrary: es)
  case Nil
  show ?case by simp
next
  case (Cons i rest)
  have "hash_chain_ends st (rd32 st dir (o_table + 4 * i)) n" by (simp add: Cons.prems)
  from list_chain_walk [OF this]
  show ?case
    by (simp add: Cons.IH Cons.prems del: list_chain.simps)
qed

text \<open>
  Claim C7. For a directory block (the root block or a directory header) whose 72 hash
  chains end, the listing returns, in the order of the slots and of each chain, one entry
  for every header on a chain that has a non-empty name. A header with an empty name
  yields no entry, and the walk goes on behind it until the chain pointer is 0 (or names
  no block of the image). \<open>list_directory\<close> on a path that is not cached returns this
  listing for the directory block that \<open>find_directory_block\<close> found.
\<close>

theorem directory_listing_walk:
  assumes "dir_block \<noteq> 0" and "get_block st dir_block = Some dir"
    and "\<forall>i<HASH_TABLE_SIZE. hash_chain_ends st (rd32 st dir (o_table + 4 * i)) n"
  shows "(\<exists>entries.
            list_dir_block (Suc n) st path dir_block
              = Some (Some entries, cache_directory st path entries)
            \<and> entries = concat (map (\<lambda>i. chain_entries n st (rd32 st dir (o_table + 4 * i)))
                                  [0..<HASH_TABLE_SIZE])
            \<and> map block_num_e entries
                = concat (map (\<lambda>i. filter (has_name st)
                                     (chain_headers n st (rd32 st dir (o_table + 4 * i))))
                            [0..<HASH_TABLE_SIZE]))
         \<and> (dir_cache st path = None
              \<longrightarrow> list_directory (Suc fuel) now st path
                    = Option.bind (find_directory_block fuel now st path)
                        (\<lambda>(d, st1). list_dir_block fuel st1 path d))"
proof -
  let ?es = "concat (map (\<lambda>i. chain_entries n st (rd32 st dir (o_table + 4 * i)))
                        [0..<HASH_TABLE_SIZE])"
  have "list_slots (Suc n) st dir_block dir hash_slots [] = Some ([] @ ?es)"
    unfolding hash_slots_def by (rule list_slots_walk) (simp add: assms(3))
  then have a: "list_dir_block (Suc n) st path dir_block
                  = Some (Some ?es, cache_directory st path ?es)"
    using assms(1,2) by (simp add: list_dir_block_def)
  have b: "map block_num_e ?es
             = concat (map (\<lambda>i. filter (has_name st)
                                  (chain_headers n st (rd32 st dir (o_table + 4 * i))))
                         [0..<HASH_TABLE_SIZE])"
    by (simp add: map_concat chain_entries_def make_entry_def Let_def comp_def)
  from a b show ?thesis by simp
qed

text \<open>A volume whose root directory has one chain, in slot 0: the header in block 2 has an
  empty name, the header in block 3 behind it is named \<open>x\<close>.\<close>

definition listing_volume :: AdfImage where
  "listing_volume =
     \<lparr>mapped = True,
      mapped_data = (\<lambda>_ _. 0)(880 := (\<lambda>_. 0)(3 := 2, 27 := 2, 511 := 1),
                                 2 := (\<lambda>_. 0)(3 := 2, 499 := 3, 511 := 2),
                                 3 := (\<lambda>_. 0)(3 := 2, 432 := 1, 433 := 120, 511 := 2)),
      file_size = 901120, dos_type = DOS_OFS, root_block_num = 880, volume_name = [],
      is_ffs = False, read_only = False, dir_cache = Map.empty, free_blocks = {},
      used_blocks = {}\<rparr>"

lemma listing_volume_get_block [simp]:
  "get_block listing_volume b = (if unat b < 1760 then Some (unat b) else None)"
  by (auto simp: get_block_def is_valid_def listing_volume_def)

lemma listing_volume_words:
  "i < 72 \<Longrightarrow> rd32 listing_volume 880 (o_table + 4 * i) = (if i = 0 then 2 else 0)"
  "rd32 listing_volume 2 o_hash_chain = 3"
  "rd32 listing_volume 3 o_hash_chain = 0"
  by (auto simp: rd32_def blk_def be32_def listing_volume_def)

lemma listing_volume_names:
  "\<not> has_name listing_volume 2" "has_name listing_volume 3"
  by (simp_all add: has_name_def blk_def bcpl_read_def bytes_from_def listing_volume_def)

lemma listing_volume_chain: "chain_headers 2 listing_volume 2 = [2, 3]"
proof -
  have "chain_headers (Suc (Suc 0)) listing_volume 2 = [2, 3]"
    by (simp add: listing_volume_words)
  then show ?thesis by (simp add: numeral_2_eq_2)
qed

theorem directory_listing_walk_witness:
  "get_block listing_volume 880 = Some 880
   \<and> chain_headers 2 listing_volume (rd32 listing_volume 880 o_table) = [2, 3]
   \<and> \<not> has_name listing_volume 2 \<and> has_name listing_volume 3
   \<and> (\<exists>entries. list_dir_block 3 listing_volume [47] 880
                   = Some (Some entries, cache_directory listing_volume [47] entries)
                 \<and> map block_num_e entries = [3])"
proof -
  let ?g = "\<lambda>i. filter (has_name listing_volume)
                   (chain_headers 2 listing_volume (rd32 listing_volume 880 (o_table + 4 * i)))"
  have ends: "\<forall>i<HASH_TABLE_SIZE.
                hash_chain_ends listing_volume (rd32 listing_volume 880 (o_table + 4 * i)) 2"
  proof (intro allI impI)
    fix i :: nat
    assume "i < HASH_TABLE_SIZE"
    then have "hash_chain_ends listing_volume (rd32 listing_volume 880 (o_table + 4 * i))
                 (Suc (Suc 0))"
      by (simp add: listing_volume_words)
    then show "hash_chain_ends listing_volume (rd32 listing_volume 880 (o_table + 4 * i)) 2"
      by (simp add: numeral_2_eq_2)
  qed
  have gb: "get_block listing_volume 880 = Some 880" by simp
  from directory_listing_walk [of 880 listing_volume 880 2 "[47]", OF _ gb ends]
  obtain entries where
    l: "list_dir_block (Suc 2) listing_volume [47] 880
          = Some (Some entries, cache_directory listing_volume [47] entries)"
    and b: "map block_num_e entries = concat (map ?g [0..<HASH_TABLE_SIZE])"
    by auto
  have s0: "rd32 listing_volume 880 o_table = 2"
    using listing_volume_words(1) [of 0] by simp
  have g0: "?g 0 = [3]"
    by (simp add: s0 listing_volume_chain listing_volume_names)
  have "chain_headers 2 listing_volume 0 = []" by (simp add: numeral_2_eq_2)
  then have rest: "concat (map ?g [1..<HASH_TABLE_SIZE]) = []"
    by (simp add: listing_volume_words)
  have "[0..<HASH_TABLE_SIZE] = 0 # [1..<HASH_TABLE_SIZE]" by (simp add: upt_conv_Cons)
  then have "concat (map ?g [0..<HASH_TABLE_SIZE]) = ?g 0 @ concat (map ?g [1..<HASH_TABLE_SIZE])"
    by (simp only: list.map concat.simps)
  with g0 rest b have m: "map block_num_e entries = [3]" by simp
  have "Suc 2 = 3" by simp
  with l have l3: "list_dir_block 3 listing_volume [47] 880
          = Some (Some entries, cache_directory listing_volume [47] entries)"
    by (simp only:)
  have c: "chain_headers 2 listing_volume (rd32 listing_volume 880 o_table) = [2, 3]"
    by (simp only: s0 listing_volume_chain)
  show ?thesis
    by (intro conjI exI [of _ entries]) (fact l3 m gb c listing_volume_names)+
qed

end
